theory Spec2Isabelle
  imports Main
begin

section \<open>JavaScript numbers (IEEE-754 binary64)\<close>

text \<open>
  The helper \<open>normalizePlaybackSeries\<close> of \<^verbatim>\<open>src/tmp_normalize.py\<close> (lines 66 to
  110, a TypeScript function held in a string literal) works on \<open>number[][]\<close>. A
  JavaScript number is a binary64 value: not-a-number, one of the two infinities, or a
  finite value. Every finite binary64 value is an integer multiple of the smallest
  subnormal \<open>2^-1074\<close>, so a finite value is stored as that integer multiple:
  \<open>Fin k\<close> stands for \<open>k * 2^-1074\<close>. Sums and differences of two finite values are
  then exact integers, and the only source of inexactness is the rounding of that
  integer to 53 significant bits (round to nearest, ties to even) together with the
  overflow to an infinity.

  The two zeros \<open>+0\<close> and \<open>-0\<close> are one value \<open>Fin 0\<close>: the function compares with
  \<open><\<close> and \<open>>\<close>, tests \<open>Number.isFinite\<close> and ends with \<open>Math.max(0, _)\<close>, none of
  which separates the two zeros except that \<open>Math.max(0, -0)\<close> is \<open>+0\<close>.
\<close>

datatype num = Fin int | PInf | NInf | NaN

text \<open>
  The value \<open>1.0\<close> is \<open>2^1074\<close> units; \<open>dbl n\<close> is the double whose value is the
  integer \<open>n\<close> (for \<open>n\<close> of at most 53 bits).
\<close>

definition one_dbl :: int where
  "one_dbl = 2 ^ 1074"

definition dbl :: "int \<Rightarrow> num" where
  "dbl n = Fin (n * one_dbl)"

subsection \<open>Rounding to 53 significant bits\<close>

text \<open>
  \<open>shift_of n\<close> is the number of low bits of \<open>n\<close> that do not fit into a 53-bit
  significand: \<open>0\<close> for \<open>n < 2^53\<close>, otherwise the bit length of \<open>n\<close> minus 53.
\<close>

function shift_of :: "int \<Rightarrow> nat" where
  "shift_of n = (if n < 2 ^ 53 then 0 else Suc (shift_of (n div 2)))"
  by pat_completeness auto
termination
  by (relation "measure nat") auto

declare shift_of.simps [simp del]

text \<open>Round to nearest, ties to even, of a magnitude.\<close>

definition round_sig :: "int \<Rightarrow> int" where
  "round_sig n =
     (let s = shift_of n; q = n div 2 ^ s; r = n mod 2 ^ s
      in if 2 * r < 2 ^ s \<or> (2 * r = 2 ^ s \<and> even q) then q * 2 ^ s else (q + 1) * 2 ^ s)"

definition round_int :: "int \<Rightarrow> int" where
  "round_int k = sgn k * round_sig \<bar>k\<bar>"

text \<open>
  The first magnitude beyond the finite range: \<open>2^1024\<close>, in units of \<open>2^-1074\<close>.
  A rounded result of at least this magnitude is an infinity.
\<close>

definition huge :: int where
  "huge = 2 ^ 2098"

definition to_double :: "int \<Rightarrow> num" where
  "to_double x =
     (let r = round_int x
      in if huge \<le> r then PInf else if r \<le> - huge then NInf else Fin r)"

text \<open>A magnitude is representable when its excess low bits are all zero.\<close>

definition rep53 :: "int \<Rightarrow> bool" where
  "rep53 n \<longleftrightarrow> 2 ^ shift_of n dvd n"

definition is_double :: "num \<Rightarrow> bool" where
  "is_double v = (case v of Fin k \<Rightarrow> rep53 \<bar>k\<bar> \<and> \<bar>k\<bar> < huge | _ \<Rightarrow> True)"

subsection \<open>The operations the function uses\<close>

text \<open>\<open>Number.isFinite\<close>.\<close>

fun isFinite :: "num \<Rightarrow> bool" where
  "isFinite (Fin k) = True"
| "isFinite v = False"

text \<open>The comparison \<open>a < b\<close>; any comparison with not-a-number is false.\<close>

fun lt :: "num \<Rightarrow> num \<Rightarrow> bool" where
  "lt NaN b = False"
| "lt a NaN = False"
| "lt (Fin a) (Fin b) = (a < b)"
| "lt (Fin a) PInf = True"
| "lt (Fin a) NInf = False"
| "lt NInf NInf = False"
| "lt NInf b = True"
| "lt PInf b = False"

definition gt :: "num \<Rightarrow> num \<Rightarrow> bool" where
  "gt a b = lt b a"

text \<open>Unary minus.\<close>

fun fneg :: "num \<Rightarrow> num" where
  "fneg (Fin k) = Fin (- k)"
| "fneg PInf = NInf"
| "fneg NInf = PInf"
| "fneg NaN = NaN"

text \<open>The sum \<open>a + b\<close> and the difference \<open>a - b\<close>.\<close>

fun fadd :: "num \<Rightarrow> num \<Rightarrow> num" where
  "fadd NaN b = NaN"
| "fadd a NaN = NaN"
| "fadd (Fin a) (Fin b) = to_double (a + b)"
| "fadd (Fin a) PInf = PInf"
| "fadd (Fin a) NInf = NInf"
| "fadd PInf NInf = NaN"
| "fadd PInf b = PInf"
| "fadd NInf PInf = NaN"
| "fadd NInf b = NInf"

fun fsub :: "num \<Rightarrow> num \<Rightarrow> num" where
  "fsub NaN b = NaN"
| "fsub a NaN = NaN"
| "fsub (Fin a) (Fin b) = to_double (a - b)"
| "fsub (Fin a) PInf = NInf"
| "fsub (Fin a) NInf = PInf"
| "fsub PInf PInf = NaN"
| "fsub PInf b = PInf"
| "fsub NInf NInf = NaN"
| "fsub NInf b = NInf"

text \<open>\<open>Math.max(a, b)\<close>: not-a-number if either argument is, else the larger.\<close>

definition Math_max :: "num \<Rightarrow> num \<Rightarrow> num" where
  "Math_max a b = (if a = NaN \<or> b = NaN then NaN else if lt a b then b else a)"

section \<open>The function\<close>

text \<open>
  The parameter has the type \<open>number[][]\<close>: a batch is a list of arrays and an array a
  list of numbers. Both loops over an array run over the indices below its length, so
  they are folds and maps over its elements. The source has no \<open>throw\<close>, and none of
  the operations it uses can fail on these types, so the model has no error branch.

  Lines 71 to 78: the running peak over every finite sample, starting from
  \<open>Number.NEGATIVE_INFINITY\<close>.
\<close>

definition peak_step :: "num \<Rightarrow> num \<Rightarrow> num" where
  "peak_step value peak =
     (if \<not> isFinite value then peak else if gt value peak then value else peak)"

definition find_peak :: "num list list \<Rightarrow> num" where
  "find_peak series = fold (\<lambda>arr peak. fold peak_step arr peak) series NInf"

text \<open>
  Lines 84 to 96: the centred arrays. The variable \<open>min\<close> lives outside the
  \<open>map\<close> callback and is updated inside it, so it is threaded through both loops.
\<close>

definition center_value :: "num \<Rightarrow> num \<Rightarrow> num" where
  "center_value peak value = (if isFinite value then fsub value peak else NaN)"

definition min_step :: "num \<Rightarrow> num \<Rightarrow> num" where
  "min_step normalizedValue mn =
     (if isFinite normalizedValue \<and> lt normalizedValue mn then normalizedValue else mn)"

fun center_array :: "num \<Rightarrow> num list \<Rightarrow> num \<Rightarrow> num list \<times> num" where
  "center_array peak [] mn = ([], mn)"
| "center_array peak (value # rest) mn =
     (let normalizedValue = center_value peak value;
          mn1 = min_step normalizedValue mn;
          (normalized, mn2) = center_array peak rest mn1
      in (normalizedValue # normalized, mn2))"

fun center_series :: "num \<Rightarrow> num list list \<Rightarrow> num \<Rightarrow> num list list \<times> num" where
  "center_series peak [] mn = ([], mn)"
| "center_series peak (source # rest) mn =
     (let (normalized, mn1) = center_array peak source mn;
          (centered, mn2) = center_series peak rest mn1
      in (normalized # centered, mn2))"

text \<open>Lines 101 to 108: the shifted arrays.\<close>

definition shift_value :: "num \<Rightarrow> num \<Rightarrow> num" where
  "shift_value offset value =
     (if isFinite value then Math_max (Fin 0) (fadd value offset) else NaN)"

record result =
  arrays :: "num list list"

definition normalizePlaybackSeries :: "num list list \<Rightarrow> result" where
  "normalizePlaybackSeries series =
     (if length series = 0 then \<lparr>arrays = []\<rparr>
      else
        let peak0 = find_peak series;
            peak = (if \<not> isFinite peak0 then Fin 0 else peak0);
            (centered, mn) = center_series peak series PInf;
            offset = (if isFinite mn then fneg mn else Fin 0)
        in \<lparr>arrays = map (map (shift_value offset)) centered\<rparr>)"

section \<open>Notions used to state the properties\<close>

text \<open>The finite values of an array, in order, and of a whole batch.\<close>

fun fin_vals :: "num list \<Rightarrow> int list" where
  "fin_vals [] = []"
| "fin_vals (Fin k # xs) = k # fin_vals xs"
| "fin_vals (v # xs) = fin_vals xs"

definition finite_values :: "num list list \<Rightarrow> int list" where
  "finite_values batch = fin_vals (concat batch)"

text \<open>
  The least and the greatest finite value of a batch; \<open>None\<close> when the batch has no
  finite value.
\<close>

definition min_finite :: "num list list \<Rightarrow> int option" where
  "min_finite batch = (case finite_values batch of [] \<Rightarrow> None | a # as \<Rightarrow> Some (fold min as a))"

definition max_finite :: "num list list \<Rightarrow> int option" where
  "max_finite batch = (case finite_values batch of [] \<Rightarrow> None | a # as \<Rightarrow> Some (fold max as a))"

text \<open>
  The intermediate quantities of \<open>normalizePlaybackSeries\<close> on a non-empty batch: the
  peak after the fallback of lines 80 to 82, the centred arrays and the final value of
  \<open>min\<close> after lines 84 to 96, and the offset of line 98.
\<close>

definition peak_of :: "num list list \<Rightarrow> num" where
  "peak_of series = (let peak0 = find_peak series in if \<not> isFinite peak0 then Fin 0 else peak0)"

definition centered_of :: "num list list \<Rightarrow> num list list" where
  "centered_of series = fst (center_series (peak_of series) series PInf)"

definition min_of :: "num list list \<Rightarrow> num" where
  "min_of series = snd (center_series (peak_of series) series PInf)"

definition offset_of :: "num list list \<Rightarrow> num" where
  "offset_of series = (if isFinite (min_of series) then fneg (min_of series) else Fin 0)"

text \<open>
  The value the specification gives for the greatest finite output,
  \<open>peakOriginal - minAfterCentering\<close>: the greatest finite input sample minus the least
  finite value after the peak has been subtracted from every finite sample.
\<close>

definition spec_max_output :: "num list list \<Rightarrow> num" where
  "spec_max_output series =
     (case (max_finite series, min_finite (centered_of series)) of
        (Some peakOriginal, Some minAfterCentering) \<Rightarrow> fsub (Fin peakOriginal) (Fin minAfterCentering)
      | _ \<Rightarrow> NaN)"

text \<open>The integer stored in a finite value.\<close>

fun the_fin :: "num \<Rightarrow> int" where
  "the_fin (Fin k) = k"
| "the_fin v = 0"

text \<open>
  A sample \<open>a\<close> is handled exactly when neither the subtraction of the peak (line 89)
  nor the addition of the offset (line 105) rounds or overflows on it; the centring is
  exact on a batch when the subtraction is exact on every finite sample.
\<close>

definition exact_at :: "num list list \<Rightarrow> int \<Rightarrow> bool" where
  "exact_at series a \<longleftrightarrow>
     fsub (Fin a) (peak_of series) = Fin (a - the_fin (peak_of series)) \<and>
     fadd (Fin (a - the_fin (peak_of series))) (offset_of series) =
       Fin (a - the_fin (peak_of series) + the_fin (offset_of series))"

definition centering_exact :: "num list list \<Rightarrow> bool" where
  "centering_exact series \<longleftrightarrow>
     list_all (\<lambda>a. fsub (Fin a) (peak_of series) = Fin (a - the_fin (peak_of series)))
       (finite_values series)"

text \<open>
  The one-stage function of the specification: with \<open>m\<close> the least finite sample of the
  whole batch, a finite sample \<open>v\<close> becomes \<open>v - m\<close> and any other sample becomes
  not-a-number. (Without a finite sample there is no \<open>m\<close>, and no finite \<open>v\<close> either.)
\<close>

definition one_stage :: "num list list \<Rightarrow> num list list" where
  "one_stage series =
     (case min_finite series of
        None \<Rightarrow> map (map (\<lambda>v. NaN)) series
      | Some m \<Rightarrow> map (map (\<lambda>v. if isFinite v then fsub v (Fin m) else NaN)) series)"

section \<open>The function on a store of arrays\<close>

text \<open>
  To state that the input arrays are not written, the same function is modelled once
  more on a store: an array is an address, the store maps an address to the array's
  contents, and \<open>free\<close> is the first address not yet in use. The batch \<open>series\<close> is the
  list of the addresses of its arrays (two entries may be the same array).

  \<open>new Array(n)\<close> takes the first free address; its \<open>n\<close> slots are empty in
  JavaScript and hold \<open>NaN\<close> here, and every slot is assigned before anything reads it.
  \<open>a[i] = v\<close> is only executed with \<open>i < a.length\<close>, and \<open>a[i]\<close> is only read with
  \<open>i < a.length\<close>.
\<close>

record store =
  arr :: "nat \<Rightarrow> num list"
  free :: nat

definition new_Array :: "nat \<Rightarrow> store \<Rightarrow> nat \<times> store" where
  "new_Array n st =
     (free st, st\<lparr>arr := (arr st)(free st := replicate n NaN), free := Suc (free st)\<rparr>)"

definition set_at :: "nat \<Rightarrow> nat \<Rightarrow> num \<Rightarrow> store \<Rightarrow> store" where
  "set_at a i v st = st\<lparr>arr := (arr st)(a := (arr st a)[i := v])\<rparr>"

text \<open>Lines 71 to 78.\<close>

definition peak_loop :: "store \<Rightarrow> nat list \<Rightarrow> num" where
  "peak_loop st series =
     fold (\<lambda>a peak. fold (\<lambda>i peak. peak_step (arr st a ! i) peak) [0..<length (arr st a)] peak)
       series NInf"

text \<open>Lines 85 to 96: the callback of the first \<open>map\<close>, and the \<open>map\<close> itself.\<close>

definition center_source :: "num \<Rightarrow> nat \<Rightarrow> store \<times> num \<Rightarrow> nat \<times> store \<times> num" where
  "center_source peak source = (\<lambda>(st, mn).
     let (normalized, st1) = new_Array (length (arr st source)) st;
         (st2, mn2) =
           fold (\<lambda>i (st, mn).
                  let value = arr st source ! i;
                      normalizedValue = center_value peak value
                  in (set_at normalized i normalizedValue st, min_step normalizedValue mn))
             [0..<length (arr st source)] (st1, mn)
     in (normalized, st2, mn2))"

fun centered_loop :: "num \<Rightarrow> nat list \<Rightarrow> store \<times> num \<Rightarrow> nat list \<times> store \<times> num" where
  "centered_loop peak [] (st, mn) = ([], st, mn)"
| "centered_loop peak (source # rest) (st, mn) =
     (let (normalized, st1, mn1) = center_source peak source (st, mn);
          (centered, st2, mn2) = centered_loop peak rest (st1, mn1)
      in (normalized # centered, st2, mn2))"

text \<open>Lines 101 to 108: the callback of the second \<open>map\<close>, and the \<open>map\<close> itself.\<close>

definition shift_source :: "num \<Rightarrow> nat \<Rightarrow> store \<Rightarrow> nat \<times> store" where
  "shift_source offset source st =
     (let (shifted, st1) = new_Array (length (arr st source)) st;
          st2 = fold (\<lambda>i st. set_at shifted i (shift_value offset (arr st source ! i)) st)
                  [0..<length (arr st source)] st1
      in (shifted, st2))"

fun shifted_loop :: "num \<Rightarrow> nat list \<Rightarrow> store \<Rightarrow> nat list \<times> store" where
  "shifted_loop offset [] st = ([], st)"
| "shifted_loop offset (source # rest) st =
     (let (shifted, st1) = shift_source offset source st;
          (out, st2) = shifted_loop offset rest st1
      in (shifted # out, st2))"

definition normalize_store :: "store \<Rightarrow> nat list \<Rightarrow> nat list \<times> store" where
  "normalize_store st series =
     (if length series = 0 then ([], st)
      else
        let peak0 = peak_loop st series;
            peak = (if \<not> isFinite peak0 then Fin 0 else peak0);
            (centered, st1, mn) = centered_loop peak series (st, PInf);
            offset = (if isFinite mn then fneg mn else Fin 0)
        in shifted_loop offset centered st1)"

lemma shift_of_small: "n < 2 ^ 53 \<Longrightarrow> shift_of n = 0"
  by (simp add: shift_of.simps)

lemma shift_of_large: "2 ^ 53 \<le> n \<Longrightarrow> shift_of n = Suc (shift_of (n div 2))"
  by (subst shift_of.simps) simp

lemma shift_of_upper: "n < 2 ^ (53 + shift_of n)"
proof (induction n rule: shift_of.induct)
  case (1 n)
  show ?case
  proof (cases "n < 2 ^ 53")
    case True
    then show ?thesis by (simp add: shift_of_small)
  next
    case False
    then have ih: "n div 2 < 2 ^ (53 + shift_of (n div 2))" using 1 by simp
    have "n < 2 * 2 ^ (53 + shift_of (n div 2))" using ih by linarith
    also have "\<dots> = 2 ^ (53 + Suc (shift_of (n div 2)))" by (simp add: power_add)
    finally show ?thesis using False by (simp only: shift_of_large not_less)
  qed
qed

lemma shift_of_lower: "0 < shift_of n \<Longrightarrow> 2 ^ (52 + shift_of n) \<le> n"
proof (induction n rule: shift_of.induct)
  case (1 n)
  have big: "2 ^ 53 \<le> n" using 1(2) by (cases "n < 2 ^ 53") (simp_all add: shift_of_small)
  show ?case
  proof (cases "n div 2 < 2 ^ 53")
    case True
    then have "shift_of n = 1" using big by (simp add: shift_of_large shift_of_small)
    then show ?thesis using big by simp
  next
    case False
    then have "0 < shift_of (n div 2)" by (simp add: shift_of_large)
    then have "2 ^ (52 + shift_of (n div 2)) \<le> n div 2" using 1(1) big by simp
    then have "2 * 2 ^ (52 + shift_of (n div 2)) \<le> n" by linarith
    moreover have "(2::int) * 2 ^ (52 + shift_of (n div 2)) = 2 ^ (52 + Suc (shift_of (n div 2)))" by (simp add: power_add)
    ultimately show ?thesis using big by (simp only: shift_of_large)
  qed
qed

lemma shift_of_le: "n < 2 ^ (53 + k) \<Longrightarrow> shift_of n \<le> k"
proof (rule ccontr)
  assume a: "n < 2 ^ (53 + k)" and "\<not> shift_of n \<le> k"
  then have gt: "k < shift_of n" by simp
  then have "(2::int) ^ (53 + k) \<le> 2 ^ (52 + shift_of n)"
    by (intro power_increasing) auto
  moreover have "2 ^ (52 + shift_of n) \<le> n" using gt by (intro shift_of_lower) simp
  ultimately show False using a by linarith
qed

lemma shift_of_mono: "a \<le> b \<Longrightarrow> shift_of a \<le> shift_of b"
  using shift_of_upper [of b] by (intro shift_of_le) linarith


lemma rep53_mult: "0 \<le> m \<Longrightarrow> m \<le> 2 ^ 53 \<Longrightarrow> rep53 (m * 2 ^ j)"
proof (cases "m = 2 ^ 53")
  case True
  have "m * 2 ^ j < 2 ^ (53 + Suc j)" using True by (simp add: power_add)
  then have "shift_of (m * 2 ^ j) \<le> Suc j" by (rule shift_of_le)
  then have "shift_of (m * 2 ^ j) \<le> 53 + j" by simp
  then have "(2::int) ^ shift_of (m * 2 ^ j) dvd 2 ^ (53 + j)" by (rule le_imp_power_dvd)
  then show ?thesis using True by (simp add: rep53_def power_add)
next
  case False
  assume "0 \<le> m" "m \<le> 2 ^ 53"
  then have "m < 2 ^ 53" using False by simp
  then have "m * 2 ^ j < 2 ^ 53 * 2 ^ j" by simp
  then have "m * 2 ^ j < 2 ^ (53 + j)" by (simp add: power_add)
  then have "shift_of (m * 2 ^ j) \<le> j" by (rule shift_of_le)
  then have "(2::int) ^ shift_of (m * 2 ^ j) dvd 2 ^ j" by (rule le_imp_power_dvd)
  then show ?thesis by (simp add: rep53_def)
qed

lemma rep53_dvd: "rep53 y \<Longrightarrow> k \<le> shift_of y \<Longrightarrow> 2 ^ k dvd y"
  unfolding rep53_def by (meson le_imp_power_dvd dvd_trans)

lemma rep53_0: "rep53 0"
  by (simp add: rep53_def)

lemma div_pow_facts:
  fixes n :: int
  shows "n div 2 ^ s * 2 ^ s \<le> n" and "n < (n div 2 ^ s + 1) * 2 ^ s"
    and "n mod 2 ^ s \<noteq> 0 \<Longrightarrow> n div 2 ^ s * 2 ^ s < n"
proof -
  define d :: int where "d = 2 ^ s"
  have dpos: "0 < d" by (simp add: d_def)
  have a: "0 \<le> n mod d" and b: "n mod d < d" using dpos by simp_all
  have c: "n div d * d + n mod d = n" by simp
  show "n div 2 ^ s * 2 ^ s \<le> n" using a c unfolding d_def by linarith
  have "(n div d + 1) * d = n div d * d + d" by (simp add: distrib_right)
  then show "n < (n div 2 ^ s + 1) * 2 ^ s" using b c unfolding d_def by linarith
  show "n mod 2 ^ s \<noteq> 0 \<Longrightarrow> n div 2 ^ s * 2 ^ s < n" using a c unfolding d_def by linarith
qed

lemma quot_bound: "n div 2 ^ shift_of n < 2 ^ 53"
proof -
  have "n < 2 ^ 53 * 2 ^ shift_of n" using shift_of_upper [of n] by (simp add: power_add)
  then have "n div 2 ^ shift_of n * 2 ^ shift_of n < 2 ^ 53 * 2 ^ shift_of n"
    using div_pow_facts(1) [of n "shift_of n"] by linarith
  then show ?thesis by simp
qed

lemma round_sig_cases:
  "round_sig n = (n div 2 ^ shift_of n) * 2 ^ shift_of n \<or>
   round_sig n = (n div 2 ^ shift_of n + 1) * 2 ^ shift_of n \<and> n mod 2 ^ shift_of n \<noteq> 0"
  by (auto simp: round_sig_def Let_def)

lemma round_sig_rep: "0 \<le> n \<Longrightarrow> rep53 (round_sig n)"
proof -
  assume n: "0 \<le> n"
  have q0: "0 \<le> n div 2 ^ shift_of n" using n by (simp add: pos_imp_zdiv_nonneg_iff)
  have q1: "n div 2 ^ shift_of n < 2 ^ 53" by (rule quot_bound)
  show ?thesis using round_sig_cases [of n] q0 q1
    by (auto intro!: rep53_mult)
qed

lemma round_sig_exact: "rep53 n \<Longrightarrow> round_sig n = n"
  by (auto simp: round_sig_def Let_def rep53_def)

lemma round_sig_ge: 
  assumes "rep53 y" "0 \<le> y" "y \<le> n"
  shows "y \<le> round_sig n"
proof -
  let ?s = "shift_of n"
  let ?q = "n div 2 ^ ?s"
  have n: "0 \<le> n" using assms by simp
  have low: "?q * 2 ^ ?s \<le> round_sig n"
    using round_sig_cases [of n] by (auto simp: distrib_right)
  have "y \<le> ?q * 2 ^ ?s"
  proof (cases "shift_of y = ?s")
    case True
    then have "2 ^ ?s dvd y" using assms(1) by (simp add: rep53_def)
    then obtain c where c: "y = 2 ^ ?s * c" by (auto simp: dvd_def)
    have "c \<le> ?q" using assms(3) c by (simp add: zdiv_mono1 [of "2 ^ ?s * c" n "2 ^ ?s", simplified])
    then show ?thesis using c by simp
  next
    case False
    then have lt: "shift_of y < ?s" using shift_of_mono [OF assms(3)] by simp
    then have pos: "0 < ?s" by simp
    have "y < 2 ^ (53 + shift_of y)" by (rule shift_of_upper)
    also have "(2::int) ^ (53 + shift_of y) \<le> 2 ^ (52 + ?s)"
      using lt by (intro power_increasing) auto
    finally have y: "y < 2 ^ 52 * 2 ^ ?s" by (simp add: power_add)
    have "2 ^ (52 + ?s) \<le> n" using pos by (rule shift_of_lower)
    then have "(2 ^ 52 * 2 ^ ?s) div 2 ^ ?s \<le> ?q"
      by (intro zdiv_mono1) (auto simp: power_add)
    then have "2 ^ 52 \<le> ?q" by simp
    then have "2 ^ 52 * 2 ^ ?s \<le> ?q * 2 ^ ?s" by (intro mult_right_mono) auto
    then show ?thesis using y by linarith
  qed
  then show ?thesis using low by linarith
qed

lemma round_sig_le:
  assumes "rep53 y" "0 \<le> n" "n \<le> y"
  shows "round_sig n \<le> y"
proof -
  let ?s = "shift_of n"
  let ?q = "n div 2 ^ ?s"
  show ?thesis
  proof (cases "n mod 2 ^ ?s = 0")
    case True
    then have "round_sig n = n" by (auto simp: round_sig_def Let_def)
    then show ?thesis using assms by simp
  next
    case False
    have up: "round_sig n \<le> (?q + 1) * 2 ^ ?s"
      using round_sig_cases [of n] by (auto simp: distrib_right)
    have "2 ^ ?s dvd y" using assms(1) shift_of_mono [OF assms(3)] by (rule rep53_dvd)
    then obtain c where c: "y = c * 2 ^ ?s" by (auto simp: dvd_def mult.commute)
    have "?q * 2 ^ ?s < n" using False by (rule div_pow_facts(3))
    then have "?q * 2 ^ ?s < c * 2 ^ ?s" using assms(3) c by linarith
    then have "?q < c" by simp
    then have "(?q + 1) * 2 ^ ?s \<le> c * 2 ^ ?s" by (intro mult_right_mono) auto
    then show ?thesis using up c by linarith
  qed
qed

lemma sterbenz:
  assumes "rep53 a" "rep53 b" "0 \<le> b" "b \<le> a" "a \<le> 2 * b"
  shows "rep53 (a - b)"
proof -
  let ?t = "shift_of b"
  have "2 ^ ?t dvd b" using assms(2) by (simp add: rep53_def)
  moreover have "2 ^ ?t dvd a" using assms(1) shift_of_mono [OF assms(4)] by (rule rep53_dvd)
  ultimately have "2 ^ ?t dvd a - b" by (rule dvd_diff [rotated])
  then obtain c where c: "a - b = c * 2 ^ ?t" by (auto simp: dvd_def mult.commute)
  have "a - b \<le> b" using assms by simp
  also have "b < 2 ^ 53 * 2 ^ ?t" using shift_of_upper [of b] by (simp add: power_add)
  finally have "c * 2 ^ ?t < 2 ^ 53 * 2 ^ ?t" using c by simp
  then have "c < 2 ^ 53" by simp
  moreover have "0 \<le> c * 2 ^ ?t" using assms c by simp
  then have "0 \<le> c" by (simp add: zero_le_mult_iff)
  ultimately show ?thesis unfolding c by (intro rep53_mult) auto
qed

lemma round_sig_0: "round_sig 0 = 0"
  by (simp add: round_sig_exact rep53_0)

lemma round_sig_nonneg: "0 \<le> n \<Longrightarrow> 0 \<le> round_sig n"
  using round_sig_ge [of 0 n] by (simp add: rep53_0)

lemma round_int_0: "round_int 0 = 0"
  by (simp add: round_int_def)

lemma round_int_neg: "round_int (- k) = - round_int k"
  by (simp add: round_int_def)

lemma round_int_nonneg: "0 \<le> k \<Longrightarrow> round_int k = round_sig k"
  by (cases "k = 0") (simp_all add: round_int_def round_sig_0)

lemma round_int_rep: "rep53 \<bar>round_int k\<bar>"
proof (cases "0 \<le> k")
  case True
  then show ?thesis
    using round_sig_rep [of k] round_sig_nonneg [of k] by (simp add: round_int_nonneg)
next
  case False
  then have "0 \<le> - k" by simp
  then have "rep53 \<bar>round_int (- k)\<bar>"
    using round_sig_rep [of "- k"] round_sig_nonneg [of "- k"] by (simp add: round_int_nonneg)
  then show ?thesis by (simp add: round_int_neg)
qed

lemma round_int_exact: "rep53 \<bar>k\<bar> \<Longrightarrow> round_int k = k"
  by (simp add: round_int_def round_sig_exact mult_sgn_abs)

lemma round_int_ge:
  assumes "rep53 \<bar>y\<bar>" "y \<le> k"
  shows "y \<le> round_int k"
proof (cases "0 \<le> k")
  case True
  show ?thesis
  proof (cases "0 \<le> y")
    case True
    then show ?thesis using assms \<open>0 \<le> k\<close> round_sig_ge [of y k] by (simp add: round_int_nonneg)
  next
    case False
    then show ?thesis using \<open>0 \<le> k\<close> round_sig_nonneg [of k] by (simp add: round_int_nonneg)
  qed
next
  case False
  then have "round_sig (- k) \<le> - y"
    using assms by (intro round_sig_le) auto
  moreover have "round_int k = - round_sig (- k)"
    using False round_int_nonneg [of "- k"] by (simp add: round_int_neg)
  ultimately show ?thesis by simp
qed

lemma round_int_le:
  assumes "rep53 \<bar>y\<bar>" "k \<le> y"
  shows "round_int k \<le> y"
  using round_int_ge [of "- y" "- k"] assms by (simp add: round_int_neg)

lemma to_double_fin: "\<bar>round_int x\<bar> < huge \<Longrightarrow> to_double x = Fin (round_int x)"
  by (auto simp: to_double_def Let_def)

lemma to_double_Fin_iff: "to_double x = Fin r \<longleftrightarrow> r = round_int x \<and> \<bar>r\<bar> < huge"
  by (auto simp: to_double_def Let_def)

lemma to_double_not_NaN: "to_double x \<noteq> NaN"
  by (auto simp: to_double_def Let_def)

lemma to_double_0: "to_double 0 = Fin 0"
  by (simp add: to_double_def round_int_0 huge_def)

section \<open>The loops as folds\<close>

lemma center_array_eq:
  "center_array peak xs mn =
     (map (center_value peak) xs, fold min_step (map (center_value peak) xs) mn)"
  by (induction xs arbitrary: mn) (simp_all add: Let_def)

lemma center_series_eq:
  "center_series peak ss mn =
     (map (map (center_value peak)) ss,
      fold min_step (concat (map (map (center_value peak)) ss)) mn)"
  by (induction ss arbitrary: mn) (simp_all add: center_array_eq)

lemma fold_fold_concat: "fold (\<lambda>arr acc. fold f arr acc) ss acc = fold f (concat ss) acc"
  by (induction ss arbitrary: acc) simp_all

lemma find_peak_eq: "find_peak series = fold peak_step (concat series) NInf"
  by (simp add: find_peak_def fold_fold_concat)

lemma peak_step_Fin: "peak_step (Fin a) (Fin p) = Fin (max a p)"
  by (simp add: peak_step_def gt_def max_def)

lemma peak_step_simps:
  "peak_step PInf p = p" "peak_step NInf p = p" "peak_step NaN p = p"
  "peak_step (Fin a) NInf = Fin a"
  by (simp_all add: peak_step_def gt_def)

lemma min_step_simps:
  "min_step PInf m = m" "min_step NInf m = m" "min_step NaN m = m"
  "min_step (Fin a) PInf = Fin a"
  by (simp_all add: min_step_def)

lemma fold_peak_step_Fin: "fold peak_step xs (Fin p) = Fin (fold max (fin_vals xs) p)"
proof (induction xs arbitrary: p)
  case Nil
  show ?case by simp
next
  case (Cons x xs)
  show ?case by (cases x) (simp_all add: peak_step_Fin Cons peak_step_simps)
qed

lemma fold_peak_step_NInf:
  "fold peak_step xs NInf = (case fin_vals xs of [] \<Rightarrow> NInf | a # as \<Rightarrow> Fin (fold max as a))"
proof (induction xs)
  case Nil
  show ?case by simp
next
  case (Cons x xs)
  show ?case by (cases x) (simp_all add: Cons peak_step_simps fold_peak_step_Fin)
qed

lemma min_step_Fin: "min_step (Fin a) (Fin m) = Fin (min a m)"
  by (simp add: min_step_def min_def)

lemma fold_min_step_Fin: "fold min_step xs (Fin m) = Fin (fold min (fin_vals xs) m)"
proof (induction xs arbitrary: m)
  case Nil
  show ?case by simp
next
  case (Cons x xs)
  show ?case by (cases x) (simp_all add: min_step_Fin Cons min_step_simps)
qed

lemma fold_min_step_PInf:
  "fold min_step xs PInf = (case fin_vals xs of [] \<Rightarrow> PInf | a # as \<Rightarrow> Fin (fold min as a))"
proof (induction xs)
  case Nil
  show ?case by simp
next
  case (Cons x xs)
  show ?case by (cases x) (simp_all add: Cons min_step_simps fold_min_step_Fin)
qed

lemma normalize_arrays:
  "arrays (normalizePlaybackSeries series) =
     (if series = [] then []
      else map (map (\<lambda>v. shift_value (offset_of series) (center_value (peak_of series) v))) series)"
  by (simp add: normalizePlaybackSeries_def Let_def center_series_eq offset_of_def min_of_def
      peak_of_def split_def)

lemma fin_vals_empty_iff: "fin_vals xs = [] \<longleftrightarrow> (\<forall>v\<in>set xs. \<not> isFinite v)"
proof (induction xs)
  case Nil
  show ?case by simp
next
  case (Cons x xs)
  then show ?case by (cases x) simp_all
qed

lemma set_fin_vals: "set (fin_vals xs) = {k. Fin k \<in> set xs}"
proof (induction xs)
  case Nil
  show ?case by simp
next
  case (Cons x xs)
  then show ?case by (cases x) auto
qed

lemma fin_vals_filter: "fin_vals (filter isFinite xs) = fin_vals xs"
proof (induction xs)
  case Nil
  show ?case by simp
next
  case (Cons x xs)
  then show ?case by (cases x) simp_all
qed

lemma center_value_nonfinite: "\<not> isFinite v \<Longrightarrow> center_value peak v = NaN"
  by (simp add: center_value_def)

lemma shift_value_nonfinite: "\<not> isFinite c \<Longrightarrow> shift_value offset c = NaN"
  by (simp add: shift_value_def)

lemma peak_of_no_finite: "finite_values series = [] \<Longrightarrow> find_peak series = NInf \<and> peak_of series = Fin 0"
  by (simp add: peak_of_def find_peak_eq fold_peak_step_NInf finite_values_def)

lemma normalize_no_finite:
  assumes "finite_values series = []"
  shows "arrays (normalizePlaybackSeries series) = map (map (\<lambda>v. NaN)) series"
proof -
  have nf: "\<And>arr v. arr \<in> set series \<Longrightarrow> v \<in> set arr \<Longrightarrow> \<not> isFinite v"
    using assms by (auto simp: finite_values_def fin_vals_empty_iff)
  have "map (map (\<lambda>v. shift_value (offset_of series) (center_value (peak_of series) v))) series
        = map (map (\<lambda>v. NaN)) series"
    by (intro map_cong refl) (simp add: nf center_value_nonfinite shift_value_nonfinite)
  then show ?thesis by (simp add: normalize_arrays)
qed

lemma find_peak_filter: "find_peak series = find_peak (map (filter isFinite) series)"
proof -
  have "fin_vals (concat (map (filter isFinite) series)) = fin_vals (concat series)"
    by (simp add: fin_vals_filter flip: filter_concat)
  then show ?thesis by (simp add: find_peak_eq fold_peak_step_NInf)
qed

lemma normalize_single: "arrays (normalizePlaybackSeries [[Fin k]]) = [[Fin 0]]"
  by (simp add: normalize_arrays offset_of_def min_of_def peak_of_def find_peak_def
      peak_step_simps center_series_eq center_value_def min_step_simps to_double_0
      shift_value_def Math_max_def)

text \<open>
  C6: the output has as many series as the input, each as long as the input series at
  the same index, and in the same order: the output series at an index is the image of
  the input series at that index under one function of the single sample.
\<close>

theorem shape_preserved:
  "length (arrays (normalizePlaybackSeries series)) = length series \<and>
   map length (arrays (normalizePlaybackSeries series)) = map length series \<and>
   arrays (normalizePlaybackSeries series) =
     map (map (\<lambda>v. shift_value (offset_of series) (center_value (peak_of series) v))) series"
  by (simp add: normalize_arrays comp_def)

text \<open>
  C7: the function has no failing branch, and the degenerate inputs get their fallback
  values: the empty batch gives the empty batch, a batch without any finite sample gives
  not-a-number everywhere, a single sample gives zero, and series of different lengths
  keep their lengths.
\<close>

theorem never_fails:
  "arrays (normalizePlaybackSeries []) = [] \<and>
   (finite_values series = [] \<longrightarrow>
      arrays (normalizePlaybackSeries series) = map (map (\<lambda>v. NaN)) series) \<and>
   arrays (normalizePlaybackSeries [[Fin k]]) = [[Fin 0]] \<and>
   map length (arrays (normalizePlaybackSeries series)) = map length series"
  by (simp add: normalize_no_finite normalize_single) (simp add: normalize_arrays comp_def)

theorem never_fails_witness:
  "arrays (normalizePlaybackSeries []) = [] \<and>
   finite_values [[NaN], [NInf, PInf, NaN], []] = [] \<and>
   arrays (normalizePlaybackSeries [[NaN], [NInf, PInf, NaN], []]) = [[NaN], [NaN, NaN, NaN], []] \<and>
   arrays (normalizePlaybackSeries [[Fin 5]]) = [[Fin 0]]"
  using never_fails [of "[[NaN], [NInf, PInf, NaN], []]" 5]
  by (simp add: finite_values_def)

text \<open>
  C8: in a batch without any finite sample the running peak stays at negative infinity
  and falls back to 0, and every sample comes out as not-a-number; non-finite samples
  never take part in the peak; \<open>normalize([[NaN, Infinity]])\<close> is \<open>[[NaN, NaN]]\<close>.
\<close>

theorem no_finite_sample:
  "(finite_values series = [] \<longrightarrow>
      find_peak series = NInf \<and> peak_of series = Fin 0 \<and>
      arrays (normalizePlaybackSeries series) = map (map (\<lambda>v. NaN)) series) \<and>
   find_peak series = find_peak (map (filter isFinite) series) \<and>
   arrays (normalizePlaybackSeries [[NaN, PInf]]) = [[NaN, NaN]]"
proof -
  have "finite_values [[NaN, PInf]] = []" by (simp add: finite_values_def)
  then have "arrays (normalizePlaybackSeries [[NaN, PInf]]) = [[NaN, NaN]]"
    by (simp add: normalize_no_finite)
  moreover have "find_peak series = find_peak (map (filter isFinite) series)"
    by (rule find_peak_filter)
  moreover have "finite_values series = [] \<longrightarrow>
      find_peak series = NInf \<and> peak_of series = Fin 0 \<and>
      arrays (normalizePlaybackSeries series) = map (map (\<lambda>v. NaN)) series"
    by (simp add: normalize_no_finite peak_of_no_finite)
  ultimately show ?thesis by blast
qed

theorem no_finite_sample_witness:
  "finite_values [[NaN, PInf]] = [] \<and> peak_of [[NaN, PInf]] = Fin 0 \<and>
   arrays (normalizePlaybackSeries [[NaN, PInf]]) = [[NaN, NaN]]"
  using no_finite_sample [of "[[NaN, PInf]]"] by (simp add: finite_values_def)

section \<open>A batch with a finite sample\<close>

lemma fold_max_Max: "fold max as a = Max (set (a # as))"
  by (rule Max.set_eq_fold [symmetric])

lemma fold_min_Min: "fold min as a = Min (set (a # as))"
  by (rule Min.set_eq_fold [symmetric])

lemma max_finite_eq:
  "finite_values b \<noteq> [] \<Longrightarrow> max_finite b = Some (Max (set (finite_values b)))"
  by (cases "finite_values b") (simp_all add: max_finite_def fold_max_Max)

lemma min_finite_eq:
  "finite_values b \<noteq> [] \<Longrightarrow> min_finite b = Some (Min (set (finite_values b)))"
  by (cases "finite_values b") (simp_all add: min_finite_def fold_min_Min)

lemma peak_of_finite:
  assumes "finite_values s \<noteq> []"
  shows "peak_of s = Fin (Max (set (finite_values s)))"
proof -
  obtain a as where e: "fin_vals (concat s) = a # as"
    using assms by (cases "fin_vals (concat s)") (simp_all add: finite_values_def)
  then have "find_peak s = Fin (fold max as a)"
    by (simp add: find_peak_eq fold_peak_step_NInf)
  then show ?thesis using e by (simp add: peak_of_def fold_max_Max finite_values_def)
qed

lemma centered_of_eq: "centered_of s = map (map (center_value (peak_of s))) s"
  by (simp add: centered_of_def center_series_eq)

lemma min_of_eq: "min_of s = fold min_step (concat (centered_of s)) PInf"
  by (simp add: min_of_def center_series_eq centered_of_eq)

lemma min_of_finite:
  assumes "finite_values (centered_of s) \<noteq> []"
  shows "min_of s = Fin (Min (set (finite_values (centered_of s))))"
proof -
  obtain a as where e: "fin_vals (concat (centered_of s)) = a # as"
    using assms by (cases "fin_vals (concat (centered_of s))") (simp_all add: finite_values_def)
  then show ?thesis
    by (simp add: min_of_eq fold_min_step_PInf fold_min_Min finite_values_def)
qed

lemma center_value_Fin_iff:
  "center_value (Fin P) v = Fin c \<longleftrightarrow> (\<exists>a. v = Fin a \<and> to_double (a - P) = Fin c)"
  by (cases v) (simp_all add: center_value_def)

lemma set_fin_vals_map: "set (fin_vals (map f xs)) = {c. \<exists>v\<in>set xs. f v = Fin c}"
proof -
  have "\<And>c. Fin c \<in> f ` set xs \<longleftrightarrow> (\<exists>v\<in>set xs. f v = Fin c)" by (simp add: image_iff eq_commute)
  then show ?thesis by (simp add: set_fin_vals)
qed

lemma concat_map_map: "concat (map (map f) s) = map f (concat s)"
  by (simp add: map_concat)

lemma finite_values_map:
  "set (finite_values (map (map f) s)) = {c. \<exists>v\<in>set (concat s). f v = Fin c}"
  unfolding finite_values_def concat_map_map by (rule set_fin_vals_map)

lemma finite_values_set: "set (finite_values s) = {a. Fin a \<in> set (concat s)}"
  by (simp add: finite_values_def set_fin_vals)

lemma to_double_nonpos:
  assumes "a \<le> P" "to_double (a - P) = Fin c"
  shows "c \<le> 0" "rep53 \<bar>c\<bar>" "\<bar>c\<bar> < huge"
proof -
  have c: "c = round_int (a - P)" and h: "\<bar>c\<bar> < huge"
    using assms(2) unfolding to_double_Fin_iff by blast+
  show "c \<le> 0" unfolding c using assms(1) by (intro round_int_le) (simp_all add: rep53_0)
  show "rep53 \<bar>c\<bar>" unfolding c by (rule round_int_rep)
  show "\<bar>c\<bar> < huge" by (rule h)
qed

text \<open>The quantities of a batch that has a finite sample.\<close>

lemma finite_case:
  assumes "finite_values s \<noteq> []"
  obtains P M where
    "peak_of s = Fin P" "P \<in> set (finite_values s)" "\<forall>a\<in>set (finite_values s). a \<le> P"
    "min_of s = Fin M" "offset_of s = Fin (- M)" "M \<le> 0" "rep53 \<bar>M\<bar>" "\<bar>M\<bar> < huge"
    "M \<in> set (finite_values (centered_of s))" "0 \<in> set (finite_values (centered_of s))"
    "\<forall>c\<in>set (finite_values (centered_of s)). M \<le> c \<and> c \<le> 0 \<and> rep53 \<bar>c\<bar>"
proof -
  define P where "P = Max (set (finite_values s))"
  define C where "C = set (finite_values (centered_of s))"
  define M where "M = Min C"
  have ne: "set (finite_values s) \<noteq> {}" using assms by simp
  have p: "peak_of s = Fin P" unfolding P_def using assms by (rule peak_of_finite)
  have Pin: "P \<in> set (finite_values s)" unfolding P_def using ne by (intro Max_in) simp_all
  have Pge: "\<forall>a\<in>set (finite_values s). a \<le> P" unfolding P_def by simp
  have Ceq: "C = {c. \<exists>a. Fin a \<in> set (concat s) \<and> to_double (a - P) = Fin c}"
    unfolding C_def centered_of_eq p by (auto simp: finite_values_map center_value_Fin_iff)
  have "Fin P \<in> set (concat s)" using Pin by (simp add: finite_values_set)
  then have zero: "0 \<in> C" unfolding Ceq using to_double_0 by auto
  have fin: "finite C" unfolding C_def by simp
  have Cprops: "\<forall>c\<in>C. c \<le> 0 \<and> rep53 \<bar>c\<bar> \<and> \<bar>c\<bar> < huge"
  proof
    fix c assume "c \<in> C"
    then obtain a where a: "Fin a \<in> set (concat s)" "to_double (a - P) = Fin c"
      unfolding Ceq by auto
    have "a \<le> P" using a(1) Pge by (simp add: finite_values_set)
    then show "c \<le> 0 \<and> rep53 \<bar>c\<bar> \<and> \<bar>c\<bar> < huge" using a(2) to_double_nonpos by blast
  qed
  have Min: "M \<in> C" unfolding M_def using fin zero by (intro Min_in) auto
  have Mle: "\<forall>c\<in>C. M \<le> c" unfolding M_def using fin by simp
  have cne: "finite_values (centered_of s) \<noteq> []" using zero unfolding C_def by auto
  have m: "min_of s = Fin M" unfolding M_def C_def using cne by (rule min_of_finite)
  have off: "offset_of s = Fin (- M)" by (simp add: offset_of_def m)
  show ?thesis
  proof (rule that [of P M])
    show "peak_of s = Fin P" by (rule p)
    show "P \<in> set (finite_values s)" by (rule Pin)
    show "\<forall>a\<in>set (finite_values s). a \<le> P" by (rule Pge)
    show "min_of s = Fin M" by (rule m)
    show "offset_of s = Fin (- M)" by (rule off)
    show "M \<le> 0" "rep53 \<bar>M\<bar>" "\<bar>M\<bar> < huge" using Cprops Min by auto
    show "M \<in> set (finite_values (centered_of s))" using Min by (simp add: C_def)
    show "0 \<in> set (finite_values (centered_of s))" using zero by (simp add: C_def)
    show "\<forall>c\<in>set (finite_values (centered_of s)). M \<le> c \<and> c \<le> 0 \<and> rep53 \<bar>c\<bar>"
      using Cprops Mle unfolding C_def by blast
  qed
qed

text \<open>The last stage on one finite centred value between the minimum and zero.\<close>

lemma shift_value_Fin:
  assumes "rep53 \<bar>M\<bar>" "\<bar>M\<bar> < huge" "M \<le> c" "c \<le> 0"
  shows "shift_value (Fin (- M)) (Fin c) = Fin (round_int (c - M))"
    and "fadd (Fin c) (Fin (- M)) = Fin (round_int (c - M))"
    and "0 \<le> round_int (c - M)" and "round_int (c - M) \<le> - M"
proof -
  show lo: "0 \<le> round_int (c - M)" using assms by (intro round_int_ge) (simp_all add: rep53_0)
  show hi: "round_int (c - M) \<le> - M" using assms by (intro round_int_le) simp_all
  have "\<bar>round_int (c - M)\<bar> < huge" using lo hi assms by linarith
  then have td: "to_double (c - M) = Fin (round_int (c - M))" by (rule to_double_fin)
  show "fadd (Fin c) (Fin (- M)) = Fin (round_int (c - M))" by (simp add: td)
  show "shift_value (Fin (- M)) (Fin c) = Fin (round_int (c - M))"
    using lo by (auto simp: shift_value_def td Math_max_def)
qed

lemma shift_value_nonneg: "shift_value offset c = Fin k \<Longrightarrow> 0 \<le> k"
  by (auto simp: shift_value_def Math_max_def split: if_splits)

lemma output_values:
  "set (finite_values (arrays (normalizePlaybackSeries s))) =
     {k. \<exists>c\<in>set (concat (centered_of s)). shift_value (offset_of s) c = Fin k}"
proof -
  have "set (finite_values (arrays (normalizePlaybackSeries s))) =
      {k. \<exists>v\<in>set (concat s). shift_value (offset_of s) (center_value (peak_of s) v) = Fin k}"
  proof (cases "s = []")
    case True
    then show ?thesis by (simp add: normalize_arrays finite_values_def)
  next
    case False
    then show ?thesis by (simp only: normalize_arrays finite_values_map if_False)
  qed
  also have "\<dots> = {k. \<exists>c\<in>set (map (center_value (peak_of s)) (concat s)).
      shift_value (offset_of s) c = Fin k}"
    by simp
  finally show ?thesis by (simp only: centered_of_eq concat_map_map)
qed

section \<open>Doubles with integer values\<close>

lemma one_dbl_pos: "0 < one_dbl"
  by (simp add: one_dbl_def)

lemma dbl_bounds:
  assumes "\<bar>n\<bar> \<le> 2 ^ 53"
  shows "rep53 \<bar>n * one_dbl\<bar>" and "\<bar>n * one_dbl\<bar> < huge"
proof -
  have e: "\<bar>n * one_dbl\<bar> = \<bar>n\<bar> * 2 ^ 1074" by (simp add: abs_mult one_dbl_def)
  show "rep53 \<bar>n * one_dbl\<bar>" unfolding e using assms by (intro rep53_mult) simp_all
  have "\<bar>n\<bar> * 2 ^ 1074 \<le> 2 ^ 53 * 2 ^ 1074" using assms by (intro mult_right_mono) simp_all
  also have "(2::int) ^ 53 * 2 ^ 1074 = 2 ^ 1127" by (simp flip: power_add)
  also have "(2::int) ^ 1127 < 2 ^ 2098" by (intro power_strict_increasing) simp_all
  finally show "\<bar>n * one_dbl\<bar> < huge" unfolding e huge_def .
qed

lemma to_double_dbl: "\<bar>n\<bar> \<le> 2 ^ 53 \<Longrightarrow> to_double (n * one_dbl) = dbl n"
  using dbl_bounds [of n] by (simp add: to_double_Fin_iff dbl_def round_int_exact)

lemma fsub_dbl: "\<bar>a - b\<bar> \<le> 2 ^ 53 \<Longrightarrow> fsub (dbl a) (dbl b) = dbl (a - b)"
  using to_double_dbl [of "a - b"] by (simp add: dbl_def left_diff_distrib)

lemma fadd_dbl: "\<bar>a + b\<bar> \<le> 2 ^ 53 \<Longrightarrow> fadd (dbl a) (dbl b) = dbl (a + b)"
  using to_double_dbl [of "a + b"] by (simp add: dbl_def distrib_right)

lemma one_dbl_signs: "one_dbl \<noteq> 0" "\<not> one_dbl < 0" "0 \<le> one_dbl" "\<not> one_dbl \<le> 0"
  using one_dbl_pos by simp_all

lemma one_dbl_simps:
  "Fin (a * one_dbl) = dbl a"
  "Fin (- (a * one_dbl)) = dbl (- a)"
  "a * one_dbl = b * one_dbl \<longleftrightarrow> a = b"
  "a * one_dbl < b * one_dbl \<longleftrightarrow> a < b"
  "a * one_dbl \<le> b * one_dbl \<longleftrightarrow> a \<le> b"
  "0 < a * one_dbl \<longleftrightarrow> 0 < a"
  "a * one_dbl < 0 \<longleftrightarrow> a < 0"
  "a * one_dbl = 0 \<longleftrightarrow> a = 0"
  by (simp_all add: dbl_def zero_less_mult_iff mult_less_0_iff one_dbl_signs one_dbl_pos
      mult_less_cancel_right mult_le_cancel_right)

lemma dbl_0: "dbl 0 = Fin 0"
  by (simp add: dbl_def)

lemma Math_max_dbl: "Math_max (Fin 0) (dbl a) = dbl (max 0 a)"
proof (cases "0 < a")
  case True
  then show ?thesis by (simp add: Math_max_def dbl_def one_dbl_simps(3-) max_def)
next
  case False
  then show ?thesis by (simp add: Math_max_def dbl_def one_dbl_simps(3-) max_def)
qed

lemma dbl_simps:
  "fneg (dbl a) = dbl (- a)" "lt (dbl a) (dbl b) = (a < b)" "isFinite (dbl a)"
  "dbl a \<noteq> NaN" "NaN \<noteq> dbl a" "dbl a = dbl b \<longleftrightarrow> a = b"
  "lt (dbl a) PInf" "\<not> lt (dbl a) NInf" "\<not> lt PInf (dbl a)" "lt NInf (dbl a)"
  "fin_vals (dbl a # xs) = a * one_dbl # fin_vals xs"
  by (simp_all add: dbl_def one_dbl_simps(3-) one_dbl_signs)

lemmas eval_rules = normalize_arrays offset_of_def min_of_def peak_of_def find_peak_def
  center_series_eq centered_of_eq center_value_def shift_value_def peak_step_def min_step_def gt_def
  fsub_dbl fadd_dbl dbl_simps Math_max_dbl

section \<open>The least and the greatest output\<close>

lemma finite_values_centered_iff:
  "c \<in> set (finite_values (centered_of s)) \<longleftrightarrow> Fin c \<in> set (concat (centered_of s))"
  by (simp add: finite_values_set)

lemma zero_is_output:
  assumes "finite_values s \<noteq> []"
  shows "0 \<in> set (finite_values (arrays (normalizePlaybackSeries s)))"
proof -
  obtain P :: int and M :: int where f: "offset_of s = Fin (- M)" "rep53 \<bar>M\<bar>" "\<bar>M\<bar> < huge" "M \<le> 0"
    "M \<in> set (finite_values (centered_of s))"
    using assms by (rule finite_case)
  have "shift_value (Fin (- M)) (Fin M) = Fin (round_int (M - M))"
    using f(2,3,4) by (intro shift_value_Fin) simp_all
  then have "shift_value (offset_of s) (Fin M) = Fin 0" by (simp add: f(1) round_int_0)
  moreover have "Fin M \<in> set (concat (centered_of s))"
    using f(5) by (simp only: finite_values_centered_iff)
  ultimately show ?thesis unfolding output_values by blast
qed

lemma outputs_nonneg:
  "k \<in> set (finite_values (arrays (normalizePlaybackSeries s))) \<Longrightarrow> 0 \<le> k"
  unfolding output_values using shift_value_nonneg by blast

lemma offset_is_output:
  assumes "finite_values s \<noteq> []" "offset_of s = Fin off"
  shows "off \<in> set (finite_values (arrays (normalizePlaybackSeries s)))"
proof -
  obtain P :: int and M :: int where f: "offset_of s = Fin (- M)" "rep53 \<bar>M\<bar>" "\<bar>M\<bar> < huge" "M \<le> 0"
    "0 \<in> set (finite_values (centered_of s))"
    using assms(1) by (rule finite_case)
  have "shift_value (Fin (- M)) (Fin 0) = Fin (round_int (0 - M))"
    using f(2,3,4) by (intro shift_value_Fin) simp_all
  moreover have "round_int (0 - M) = - M" using f(2) by (simp add: round_int_exact)
  ultimately have "shift_value (offset_of s) (Fin 0) = Fin off" using f(1) assms(2) by simp
  moreover have "Fin 0 \<in> set (concat (centered_of s))"
    using f(5) by (simp only: finite_values_centered_iff)
  ultimately show ?thesis unfolding output_values by blast
qed

lemma centered_finite_imp:
  assumes "c \<in> set (finite_values (centered_of s))"
  shows "finite_values s \<noteq> []"
proof -
  obtain v where v: "v \<in> set (concat s)" "center_value (peak_of s) v = Fin c"
    using assms unfolding centered_of_eq finite_values_map by blast
  from v(2) obtain a where "v = Fin a" by (cases v) (simp_all add: center_value_def)
  then have "a \<in> set (finite_values s)" using v(1) by (simp only: finite_values_set mem_Collect_eq)
  then show ?thesis by auto
qed

lemma outputs_le_offset:
  assumes "k \<in> set (finite_values (arrays (normalizePlaybackSeries s)))" "offset_of s = Fin off"
  shows "k \<le> off"
proof -
  obtain c where c: "c \<in> set (concat (centered_of s))" "shift_value (offset_of s) c = Fin k"
    using assms(1) unfolding output_values by blast
  from c(2) obtain c' where c': "c = Fin c'" by (cases c) (simp_all add: shift_value_def)
  have cin: "c' \<in> set (finite_values (centered_of s))"
    using c(1) c' by (simp only: finite_values_centered_iff)
  from cin have ne: "finite_values s \<noteq> []" by (rule centered_finite_imp)
  obtain P :: int and M :: int where f: "offset_of s = Fin (- M)" "rep53 \<bar>M\<bar>" "\<bar>M\<bar> < huge"
    "\<forall>c\<in>set (finite_values (centered_of s)). M \<le> c \<and> c \<le> 0 \<and> rep53 \<bar>c\<bar>"
    using ne by (rule finite_case)
  have b: "M \<le> c'" "c' \<le> 0" using f(4) cin by auto
  have "shift_value (Fin (- M)) (Fin c') = Fin (round_int (c' - M))"
    and "round_int (c' - M) \<le> - M"
    using f(2,3) b by (intro shift_value_Fin; simp)+
  then show ?thesis using c(2) c' f(1) assms(2) by simp
qed

text \<open>
  C1: when the batch has a finite sample, the least finite output is exactly 0; and for
  every batch, no finite output is negative.
\<close>

theorem min_output_zero:
  "(finite_values series \<noteq> [] \<longrightarrow>
      min_finite (arrays (normalizePlaybackSeries series)) = Some 0) \<and>
   (\<forall>k\<in>set (finite_values (arrays (normalizePlaybackSeries series))). 0 \<le> k)"
proof (intro conjI impI ballI)
  fix k assume "k \<in> set (finite_values (arrays (normalizePlaybackSeries series)))"
  then show "0 \<le> k" by (rule outputs_nonneg)
next
  let ?A = "set (finite_values (arrays (normalizePlaybackSeries series)))"
  assume "finite_values series \<noteq> []"
  then have z: "0 \<in> ?A" by (rule zero_is_output)
  then have ne: "finite_values (arrays (normalizePlaybackSeries series)) \<noteq> []" by auto
  have "Min ?A = 0" using z outputs_nonneg by (intro Min_eqI) auto
  then show "min_finite (arrays (normalizePlaybackSeries series)) = Some 0"
    using ne by (simp add: min_finite_eq)
qed

theorem min_output_zero_witness:
  "finite_values [[NaN, dbl 10, dbl (- 5)]] \<noteq> [] \<and>
   min_finite (arrays (normalizePlaybackSeries [[NaN, dbl 10, dbl (- 5)]])) = Some 0 \<and>
   arrays (normalizePlaybackSeries [[NaN, dbl 10, dbl (- 5)]]) = [[NaN, dbl 15, dbl 0]] \<and>
   set (finite_values (arrays (normalizePlaybackSeries [[NaN, dbl 10, dbl (- 5)]]))) = {15 * one_dbl, 0}"
proof -
  have a: "arrays (normalizePlaybackSeries [[NaN, dbl 10, dbl (- 5)]]) = [[NaN, dbl 15, dbl 0]]"
    by (simp add: eval_rules)
  have b: "finite_values [[NaN, dbl 10, dbl (- 5)]] \<noteq> []"
    by (simp add: finite_values_def dbl_def)
  have c: "set (finite_values [[NaN, dbl 15, dbl 0]]) = {15 * one_dbl, 0}"
    by (simp add: finite_values_def dbl_def)
  show ?thesis using min_output_zero [of "[[NaN, dbl 10, dbl (- 5)]]"] a b c by simp
qed

text \<open>
  C2, as amended: when the batch has a finite sample, the greatest finite output is
  \<open>0 - minAfterCentering\<close>, the offset of line 98, and it is not negative. Here
  \<open>peakOriginal\<close> is the greatest finite input and \<open>minAfterCentering\<close> the least finite
  value of the centred arrays.
\<close>

theorem max_output_is_offset:
  assumes "finite_values series \<noteq> []"
  shows "\<exists>peakOriginal minAfterCentering.
           max_finite series = Some peakOriginal \<and> peak_of series = Fin peakOriginal \<and>
           min_finite (centered_of series) = Some minAfterCentering \<and>
           offset_of series = Fin (- minAfterCentering) \<and>
           max_finite (arrays (normalizePlaybackSeries series)) = Some (- minAfterCentering) \<and>
           0 \<le> - minAfterCentering"
proof -
  let ?out = "arrays (normalizePlaybackSeries series)"
  obtain P :: int and M :: int where f: "peak_of series = Fin P" "P \<in> set (finite_values series)"
    "\<forall>a\<in>set (finite_values series). a \<le> P" "offset_of series = Fin (- M)" "M \<le> 0"
    "M \<in> set (finite_values (centered_of series))"
    "\<forall>c\<in>set (finite_values (centered_of series)). M \<le> c \<and> c \<le> 0 \<and> rep53 \<bar>c\<bar>"
    using assms by (rule finite_case)
  have "Max (set (finite_values series)) = P" using f(2,3) by (intro Max_eqI) auto
  then have 1: "max_finite series = Some P" using assms by (simp add: max_finite_eq)
  have cne: "finite_values (centered_of series) \<noteq> []" using f(6) by auto
  have "Min (set (finite_values (centered_of series))) = M" using f(6,7) by (intro Min_eqI) auto
  then have 2: "min_finite (centered_of series) = Some M" using cne by (simp add: min_finite_eq)
  have o: "- M \<in> set (finite_values ?out)" using assms f(4) by (rule offset_is_output)
  then have one: "finite_values ?out \<noteq> []" by auto
  have "Max (set (finite_values ?out)) = - M"
    using o outputs_le_offset [OF _ f(4)] by (intro Max_eqI) auto
  then have 3: "max_finite ?out = Some (- M)" using one by (simp add: max_finite_eq)
  show ?thesis using 1 2 3 f(1,4,5) by simp
qed

theorem max_output_is_offset_witness:
  "finite_values [[dbl 0, dbl 10], [dbl 5, dbl 5]] \<noteq> [] \<and>
   max_finite (arrays (normalizePlaybackSeries [[dbl 0, dbl 10], [dbl 5, dbl 5]])) = Some (10 * one_dbl) \<and>
   min_finite (centered_of [[dbl 0, dbl 10], [dbl 5, dbl 5]]) = Some (- 10 * one_dbl)"
proof -
  have b: "finite_values [[dbl 0, dbl 10], [dbl 5, dbl 5]] \<noteq> []"
    by (simp add: finite_values_def dbl_def)
  have c: "centered_of [[dbl 0, dbl 10], [dbl 5, dbl 5]] = [[dbl (- 10), dbl 0], [dbl (- 5), dbl (- 5)]]"
    by (simp add: eval_rules)
  have d: "min_finite [[dbl (- 10), dbl 0], [dbl (- 5), dbl (- 5)]] = Some (- 10 * one_dbl)"
    by (simp add: min_finite_def finite_values_def dbl_def one_dbl_def)
  show ?thesis using max_output_is_offset [OF b] b c d by auto
qed

text \<open>
  C2 as the specification states it fails on the specification's own example
  \<open>[[0, 10], [5, 5]]\<close>: the greatest output is 10, while
  \<open>peakOriginal - minAfterCentering\<close> is \<open>10 - (-10) = 20\<close>.
\<close>

theorem max_output_counterexample:
  "map_option Fin (max_finite (arrays (normalizePlaybackSeries [[dbl 0, dbl 10], [dbl 5, dbl 5]])))
     = Some (dbl 10) \<and>
   spec_max_output [[dbl 0, dbl 10], [dbl 5, dbl 5]] = dbl 20 \<and>
   dbl 10 \<noteq> dbl 20"
proof -
  have a: "arrays (normalizePlaybackSeries [[dbl 0, dbl 10], [dbl 5, dbl 5]]) = [[dbl 0, dbl 10], [dbl 5, dbl 5]]"
    by (simp add: eval_rules)
  have m: "max_finite [[dbl 0, dbl 10], [dbl 5, dbl 5]] = Some (10 * one_dbl)"
    by (simp add: max_finite_def finite_values_def dbl_def one_dbl_def)
  have c: "centered_of [[dbl 0, dbl 10], [dbl 5, dbl 5]] = [[dbl (- 10), dbl 0], [dbl (- 5), dbl (- 5)]]"
    by (simp add: eval_rules)
  have d: "min_finite [[dbl (- 10), dbl 0], [dbl (- 5), dbl (- 5)]] = Some (- 10 * one_dbl)"
    by (simp add: min_finite_def finite_values_def dbl_def one_dbl_def)
  have "spec_max_output [[dbl 0, dbl 10], [dbl 5, dbl 5]] = dbl 20"
    using m c d by (simp add: spec_max_output_def one_dbl_simps(1,2) fsub_dbl)
  then show ?thesis using a m by (simp add: one_dbl_simps(1) dbl_simps)
qed

section \<open>Finite and non-finite positions\<close>

lemma output_at:
  assumes "i < length s" "j < length (s ! i)"
  shows "arrays (normalizePlaybackSeries s) ! i ! j =
           shift_value (offset_of s) (center_value (peak_of s) (s ! i ! j))"
    and "s ! i ! j \<in> set (concat s)"
proof -
  have "s \<noteq> []" using assms(1) by auto
  then show "arrays (normalizePlaybackSeries s) ! i ! j =
           shift_value (offset_of s) (center_value (peak_of s) (s ! i ! j))"
    using assms by (simp add: normalize_arrays)
  have "s ! i \<in> set s" using assms(1) by simp
  moreover have "s ! i ! j \<in> set (s ! i)" using assms(2) by simp
  ultimately show "s ! i ! j \<in> set (concat s)" by auto
qed

lemma shift_centered_finite:
  assumes "v \<in> set (concat s)" "center_value (peak_of s) v = Fin c"
  shows "\<exists>M. offset_of s = Fin (- M) \<and> M \<le> c \<and> c \<le> 0 \<and>
            fadd (Fin c) (offset_of s) = Fin (round_int (c - M)) \<and>
            shift_value (offset_of s) (Fin c) = Fin (round_int (c - M)) \<and>
            0 \<le> round_int (c - M) \<and> round_int (c - M) \<le> - M"
proof -
  have cin: "c \<in> set (finite_values (centered_of s))"
    using assms unfolding centered_of_eq finite_values_map by blast
  then have ne: "finite_values s \<noteq> []" by (rule centered_finite_imp)
  obtain P :: int and M :: int where f: "offset_of s = Fin (- M)" "rep53 \<bar>M\<bar>" "\<bar>M\<bar> < huge"
    "\<forall>c\<in>set (finite_values (centered_of s)). M \<le> c \<and> c \<le> 0 \<and> rep53 \<bar>c\<bar>"
    using ne by (rule finite_case)
  have b: "M \<le> c" "c \<le> 0" using f(4) cin by auto
  show ?thesis using shift_value_Fin [OF f(2,3) b] f(1) b by auto
qed

lemma finite_output_iff:
  assumes "v \<in> set (concat s)"
  shows "isFinite (shift_value (offset_of s) (center_value (peak_of s) v)) \<longleftrightarrow>
           isFinite v \<and> isFinite (fsub v (peak_of s))"
proof (cases "isFinite (center_value (peak_of s) v)")
  case True
  then obtain c where c: "center_value (peak_of s) v = Fin c"
    by (cases "center_value (peak_of s) v") simp_all
  then have "isFinite (shift_value (offset_of s) (center_value (peak_of s) v))"
    using shift_centered_finite [OF assms c] by auto
  moreover have "isFinite v \<and> isFinite (fsub v (peak_of s))"
    using c by (auto simp: center_value_def split: if_splits)
  ultimately show ?thesis by simp
next
  case False
  then have "shift_value (offset_of s) (center_value (peak_of s) v) = NaN"
    by (rule shift_value_nonfinite)
  moreover have "\<not> (isFinite v \<and> isFinite (fsub v (peak_of s)))"
    using False by (auto simp: center_value_def)
  ultimately show ?thesis by simp
qed

lemma rep53_pow: "rep53 (2 ^ j)"
  using rep53_mult [of 1 j] by simp

lemma rep53_abs_pow: "rep53 \<bar>2 ^ j\<bar>" "rep53 \<bar>- (2 ^ j)\<bar>"
  by (simp_all add: rep53_pow)

lemma no_overflow_small:
  assumes "\<bar>a\<bar> \<le> 2 ^ 2096" "\<bar>p\<bar> \<le> 2 ^ 2096"
  shows "isFinite (fsub (Fin a) (Fin p))"
proof -
  have r: "rep53 \<bar>2 ^ 2097 :: int\<bar>" "rep53 \<bar>- (2 ^ 2097) :: int\<bar>" by (rule rep53_abs_pow)+
  have "(2::int) ^ 2097 = 2 * 2 ^ 2096" by simp
  then have "a - p \<le> 2 ^ 2097" "- (2 ^ 2097) \<le> a - p" using assms by linarith+
  then have "round_int (a - p) \<le> 2 ^ 2097" "- (2 ^ 2097) \<le> round_int (a - p)"
    using r round_int_le round_int_ge by blast+
  moreover have "(2::int) ^ 2097 < 2 ^ 2098" by (intro power_strict_increasing) simp_all
  ultimately have "\<bar>round_int (a - p)\<bar> < huge" unfolding huge_def by linarith
  then show ?thesis by (simp add: to_double_fin)
qed

lemma peak_of_bound:
  assumes "\<forall>a\<in>set (finite_values s). \<bar>a\<bar> \<le> B" "0 \<le> B"
  shows "\<exists>p. peak_of s = Fin p \<and> \<bar>p\<bar> \<le> B"
proof (cases "finite_values s = []")
  case True
  then show ?thesis using assms(2) by (simp add: peak_of_no_finite)
next
  case False
  then obtain P :: int and M :: int where "peak_of s = Fin P" "P \<in> set (finite_values s)" by (rule finite_case)
  then show ?thesis using assms(1) by auto
qed

text \<open>
  C4, as amended: a position that is not finite in the input is not-a-number in the
  output; a finite sample stays finite exactly when subtracting the peak from it does
  not overflow, which is the case whenever every finite sample has magnitude at most
  \<open>2^1022\<close> (that is \<open>2^2096\<close> units).
\<close>

theorem finite_positions:
  assumes "i < length series" "j < length (series ! i)"
  shows "(isFinite (arrays (normalizePlaybackSeries series) ! i ! j) \<longleftrightarrow>
            isFinite (series ! i ! j) \<and> isFinite (fsub (series ! i ! j) (peak_of series))) \<and>
         (\<not> isFinite (series ! i ! j) \<longrightarrow> arrays (normalizePlaybackSeries series) ! i ! j = NaN) \<and>
         ((\<forall>a\<in>set (finite_values series). \<bar>a\<bar> \<le> 2 ^ 2096) \<longrightarrow>
            (isFinite (arrays (normalizePlaybackSeries series) ! i ! j) \<longleftrightarrow>
               isFinite (series ! i ! j)))"
proof -
  let ?v = "series ! i ! j"
  note at = output_at [OF assms]
  have 1: "isFinite (arrays (normalizePlaybackSeries series) ! i ! j) \<longleftrightarrow>
            isFinite ?v \<and> isFinite (fsub ?v (peak_of series))"
    unfolding at(1) using at(2) by (rule finite_output_iff)
  have 2: "\<not> isFinite ?v \<longrightarrow> arrays (normalizePlaybackSeries series) ! i ! j = NaN"
    unfolding at(1) by (simp add: center_value_nonfinite shift_value_nonfinite)
  have 3: "isFinite (fsub ?v (peak_of series))"
    if b: "\<forall>a\<in>set (finite_values series). \<bar>a\<bar> \<le> 2 ^ 2096" and fin: "isFinite ?v"
  proof -
    obtain a where a: "?v = Fin a" using fin by (cases ?v) simp_all
    then have "a \<in> set (finite_values series)" using at(2) by (simp add: finite_values_set)
    then have "\<bar>a\<bar> \<le> 2 ^ 2096" using b by blast
    moreover obtain p where "peak_of series = Fin p" "\<bar>p\<bar> \<le> 2 ^ 2096"
      using peak_of_bound [OF b] by auto
    ultimately show ?thesis using a by (simp only: no_overflow_small)
  qed
  show ?thesis using 1 2 3 by blast
qed

lemma to_double_neg_huge: "to_double (- huge) = NInf"
proof -
  have "rep53 \<bar>- huge\<bar>" unfolding huge_def by (rule rep53_abs_pow)
  then have "round_int (- huge) = - huge" by (rule round_int_exact)
  moreover have "0 < huge" by (simp add: huge_def)
  ultimately show ?thesis by (simp add: to_double_def)
qed

lemma overflow_example:
  assumes "0 < b" "2 * b = huge"
  shows "arrays (normalizePlaybackSeries [[Fin b, Fin (- b)]]) = [[Fin 0, NaN]]"
proof -
  have p: "peak_of [[Fin b, Fin (- b)]] = Fin b"
    using assms(1) by (simp add: peak_of_def find_peak_def peak_step_def gt_def)
  have "- b - b = - huge" using assms(2) by simp
  then have c: "centered_of [[Fin b, Fin (- b)]] = [[Fin 0, NInf]]"
    by (simp add: centered_of_eq p center_value_def to_double_0 to_double_neg_huge)
  have m: "min_of [[Fin b, Fin (- b)]] = Fin 0"
    by (simp add: min_of_eq c min_step_def)
  have "arrays (normalizePlaybackSeries [[Fin b, Fin (- b)]]) =
          map (map (shift_value (Fin 0))) (centered_of [[Fin b, Fin (- b)]])"
    by (simp add: normalize_arrays centered_of_eq offset_of_def m)
  then show ?thesis by (simp add: c shift_value_def to_double_0 Math_max_def)
qed

theorem finite_positions_witness:
  "(0::nat) < length [[Fin (2 ^ 2097), Fin (- (2 ^ 2097))]] \<and>
   (1::nat) < length ([[Fin (2 ^ 2097), Fin (- (2 ^ 2097))]] ! 0) \<and>
   \<not> isFinite (arrays (normalizePlaybackSeries [[Fin (2 ^ 2097), Fin (- (2 ^ 2097))]]) ! 0 ! 1) \<and>
   \<not> isFinite (fsub (Fin (- (2 ^ 2097))) (peak_of [[Fin (2 ^ 2097), Fin (- (2 ^ 2097))]]))"
  using finite_positions [of 0 "[[Fin (2 ^ 2097), Fin (- (2 ^ 2097))]]" 1]
    overflow_example [of "2 ^ 2097"]
  by (simp add: huge_def)

text \<open>
  C4 as stated fails when subtracting the peak overflows: in \<open>[[2^1023, -2^1023]]\<close>
  both samples are finite doubles, the centred second sample is \<open>-2^1024\<close>, that is
  negative infinity, and the output at that position is not-a-number.
\<close>

theorem finite_positions_counterexample:
  "is_double (Fin (2 ^ 2097)) \<and> is_double (Fin (- (2 ^ 2097))) \<and>
   isFinite ([[Fin (2 ^ 2097), Fin (- (2 ^ 2097))]] ! 0 ! 1) \<and>
   arrays (normalizePlaybackSeries [[Fin (2 ^ 2097), Fin (- (2 ^ 2097))]]) ! 0 ! 1 = NaN"
proof -
  have "rep53 \<bar>2 ^ 2097 :: int\<bar>" "rep53 \<bar>- (2 ^ 2097) :: int\<bar>" by (rule rep53_abs_pow)+
  moreover have "(2::int) ^ 2097 < 2 ^ 2098" by (intro power_strict_increasing) simp_all
  ultimately have "is_double (Fin (2 ^ 2097))" "is_double (Fin (- (2 ^ 2097)))"
    by (simp_all add: is_double_def huge_def)
  moreover have "arrays (normalizePlaybackSeries [[Fin (2 ^ 2097), Fin (- (2 ^ 2097))]]) = [[Fin 0, NaN]]"
    by (rule overflow_example) (simp_all add: huge_def)
  ultimately show ?thesis by simp
qed

section \<open>An input on which the centring rounds\<close>

lemma shift_of_eq:
  assumes "2 ^ (52 + k) \<le> n" "n < 2 ^ (53 + k)"
  shows "shift_of n = k"
proof (rule ccontr)
  assume ne: "shift_of n \<noteq> k"
  have "shift_of n \<le> k" using assms(2) by (rule shift_of_le)
  then have lt: "shift_of n < k" using ne by simp
  have "n < 2 ^ (53 + shift_of n)" by (rule shift_of_upper)
  also have "(2::int) ^ (53 + shift_of n) \<le> 2 ^ (52 + k)"
    using lt by (intro power_increasing) auto
  finally show False using assms(1) by simp
qed

lemma to_double_exact: "rep53 \<bar>x\<bar> \<Longrightarrow> \<bar>x\<bar> < huge \<Longrightarrow> to_double x = Fin x"
  by (simp add: to_double_Fin_iff round_int_exact)

lemma dbl_pow_exact:
  assumes "j < 1024"
  shows "to_double (2 ^ j * one_dbl) = dbl (2 ^ j)"
    and "to_double (- (2 ^ j * one_dbl)) = dbl (- (2 ^ j))"
proof -
  have e: "(2::int) ^ j * one_dbl = 2 ^ (j + 1074)" by (simp add: one_dbl_def power_add)
  have "(2::int) ^ (j + 1074) < 2 ^ 2098" using assms by (intro power_strict_increasing) simp_all
  then have b: "\<bar>2 ^ (j + 1074) :: int\<bar> < huge" "\<bar>- (2 ^ (j + 1074)) :: int\<bar> < huge"
    by (simp_all add: huge_def)
  have "to_double (2 ^ (j + 1074)) = Fin (2 ^ (j + 1074))"
    using rep53_abs_pow(1) b(1) by (rule to_double_exact)
  then show "to_double (2 ^ j * one_dbl) = dbl (2 ^ j)" by (simp only: e dbl_def)
  have "to_double (- (2 ^ (j + 1074))) = Fin (- (2 ^ (j + 1074)))"
    using rep53_abs_pow(2) b(2) by (rule to_double_exact)
  then show "to_double (- (2 ^ j * one_dbl)) = dbl (- (2 ^ j))"
    by (simp only: e dbl_def mult_minus_left)
qed

lemma round_sig_example: "round_sig ((2 ^ 54 - 3) * one_dbl) = (2 ^ 54 - 4) * one_dbl"
proof -
  have sh: "shift_of ((2 ^ 54 - 3) * one_dbl) = 1075"
    by (rule shift_of_eq) (simp_all add: one_dbl_def)
  show ?thesis unfolding round_sig_def Let_def sh by (simp add: one_dbl_def)
qed

lemma rounding_facts:
  "fsub (dbl 3) (dbl (2 ^ 54)) = dbl (4 - 2 ^ 54)"
  "fsub (dbl 0) (dbl (2 ^ 54)) = dbl (- (2 ^ 54))"
  "fadd (dbl 0) (dbl (2 ^ 54)) = dbl (2 ^ 54)"
  "fsub (dbl (2 ^ 54)) (dbl 0) = dbl (2 ^ 54)"
proof -
  have "(3 - 2 ^ 54) * one_dbl = - ((2 ^ 54 - 3) * one_dbl)" by (simp add: algebra_simps)
  moreover have "0 < (2 ^ 54 - 3) * one_dbl" by (simp add: one_dbl_def)
  ultimately have "round_int ((3 - 2 ^ 54) * one_dbl) = - ((2 ^ 54 - 4) * one_dbl)"
    by (simp only: round_int_neg round_int_nonneg less_imp_le round_sig_example)
  moreover have "\<bar>- ((2 ^ 54 - 4) * one_dbl)\<bar> < huge" by (simp add: one_dbl_def huge_def)
  ultimately have "to_double ((3 - 2 ^ 54) * one_dbl) = Fin (- ((2 ^ 54 - 4) * one_dbl))"
    by (simp only: to_double_Fin_iff)
  then show "fsub (dbl 3) (dbl (2 ^ 54)) = dbl (4 - 2 ^ 54)"
    by (simp add: dbl_def algebra_simps)
  show "fsub (dbl 0) (dbl (2 ^ 54)) = dbl (- (2 ^ 54))"
    using dbl_pow_exact(2) [of 54] by (simp add: dbl_def)
  show "fadd (dbl 0) (dbl (2 ^ 54)) = dbl (2 ^ 54)"
    using dbl_pow_exact(1) [of 54] by (simp add: dbl_def)
  show "fsub (dbl (2 ^ 54)) (dbl 0) = dbl (2 ^ 54)"
    using dbl_pow_exact(1) [of 54] by (simp add: dbl_def)
qed

lemma rounding_example:
  "arrays (normalizePlaybackSeries [[dbl (2 ^ 54), dbl 3, dbl 0]]) = [[dbl (2 ^ 54), dbl 4, dbl 0]]"
  using rounding_facts by (simp add: eval_rules)

lemma one_stage_example:
  "one_stage [[dbl (2 ^ 54), dbl 3, dbl 0]] = [[dbl (2 ^ 54), dbl 3, dbl 0]]"
proof -
  have "min_finite [[dbl (2 ^ 54), dbl 3, dbl 0]] = Some 0"
    by (simp add: min_finite_def finite_values_def dbl_def one_dbl_def)
  then show ?thesis
    using rounding_facts(4) by (simp add: one_stage_def dbl_simps fsub_dbl flip: dbl_0)
qed

lemma example_is_double: "list_all is_double [dbl (2 ^ 54), dbl 3, dbl 0]"
proof -
  have "\<bar>2 ^ 54 * one_dbl\<bar> = \<bar>2 ^ (54 + 1074) :: int\<bar>" by (simp only: one_dbl_def power_add)
  then have "rep53 \<bar>2 ^ 54 * one_dbl\<bar>" by (simp only: rep53_abs_pow)
  moreover have "\<bar>2 ^ 54 * one_dbl\<bar> < huge" by (simp add: one_dbl_def huge_def)
  ultimately have "is_double (dbl (2 ^ 54))" by (simp add: is_double_def dbl_def)
  moreover have "is_double (dbl 3)" "is_double (dbl 0)"
    using dbl_bounds [of 3] dbl_bounds [of 0] by (simp_all add: is_double_def dbl_def)
  ultimately show ?thesis by simp
qed

section \<open>The one-stage function and differences\<close>

lemma in_set_mapD: "y \<in> set (map f xs) \<Longrightarrow> \<exists>x\<in>set xs. f x = y"
  by auto

lemma clamp_no_op:
  assumes "c \<in> set (concat (centered_of s))" "isFinite c"
  shows "Math_max (Fin 0) (fadd c (offset_of s)) = fadd c (offset_of s)"
proof -
  obtain c' where c': "c = Fin c'" using assms(2) by (cases c) simp_all
  have "Fin c' \<in> set (map (center_value (peak_of s)) (concat s))"
    using assms(1) c' by (simp only: centered_of_eq concat_map_map)
  then have "\<exists>v\<in>set (concat s). center_value (peak_of s) v = Fin c'"
    by (rule in_set_mapD)
  then obtain v where v: "v \<in> set (concat s)" "center_value (peak_of s) v = Fin c'"
    by blast
  obtain M where "fadd (Fin c') (offset_of s) = Fin (round_int (c' - M))"
    "shift_value (offset_of s) (Fin c') = Fin (round_int (c' - M))"
    using shift_centered_finite [OF v] by blast
  then show ?thesis by (simp add: c' shift_value_def)
qed

lemma the_fin_peak:
  assumes "finite_values s \<noteq> []"
  shows "peak_of s = Fin (the_fin (peak_of s))" "offset_of s = Fin (the_fin (offset_of s))"
proof -
  obtain P :: int and M :: int where "peak_of s = Fin P" "offset_of s = Fin (- M)" using assms by (rule finite_case)
  then show "peak_of s = Fin (the_fin (peak_of s))" "offset_of s = Fin (the_fin (offset_of s))"
    by simp_all
qed

lemma one_stage_eq:
  assumes ne: "finite_values s \<noteq> []" and ex: "centering_exact s"
  shows "arrays (normalizePlaybackSeries s) = one_stage s"
proof -
  obtain P :: int and M :: int where f: "peak_of s = Fin P" "offset_of s = Fin (- M)"
    "M \<in> set (finite_values (centered_of s))"
    "\<forall>c\<in>set (finite_values (centered_of s)). M \<le> c \<and> c \<le> 0 \<and> rep53 \<bar>c\<bar>"
    using ne by (rule finite_case)
  have exact: "fsub (Fin a) (Fin P) = Fin (a - P)" if "a \<in> set (finite_values s)" for a
    using ex that by (simp add: centering_exact_def list_all_iff f(1))
  have C: "set (finite_values (centered_of s)) = {a - P |a. a \<in> set (finite_values s)}"
  proof -
    have iff: "center_value (Fin P) v = Fin c \<longleftrightarrow> (\<exists>a. v = Fin a \<and> c = a - P)"
      if "v \<in> set (concat s)" for v c
    proof (cases v)
      case (Fin a)
      then have "a \<in> set (finite_values s)" using that by (simp add: finite_values_set)
      then show ?thesis using exact Fin by (auto simp: center_value_def)
    qed (simp_all add: center_value_def)
    have A: "set (finite_values (centered_of s)) =
        {c. \<exists>v\<in>set (concat s). center_value (Fin P) v = Fin c}"
      unfolding centered_of_eq f(1) by (rule finite_values_map)
    show ?thesis unfolding A
    proof (intro equalityI subsetI)
      fix c assume "c \<in> {c. \<exists>v\<in>set (concat s). center_value (Fin P) v = Fin c}"
      then obtain v where v: "v \<in> set (concat s)" "center_value (Fin P) v = Fin c" by blast
      then obtain a where "v = Fin a" "c = a - P" using iff by blast
      then show "c \<in> {a - P |a. a \<in> set (finite_values s)}"
        using v(1) unfolding finite_values_set by blast
    next
      fix c assume "c \<in> {a - P |a. a \<in> set (finite_values s)}"
      then obtain a where a: "c = a - P" "Fin a \<in> set (concat s)"
        unfolding finite_values_set by blast
      then have "center_value (Fin P) (Fin a) = Fin c" using iff by blast
      then show "c \<in> {c. \<exists>v\<in>set (concat s). center_value (Fin P) v = Fin c}"
        using a(2) by blast
    qed
  qed
  obtain m where m: "m \<in> set (finite_values s)" "M = m - P" using f(3) unfolding C by auto
  have "\<forall>a\<in>set (finite_values s). m \<le> a"
  proof
    fix a assume "a \<in> set (finite_values s)"
    then have "a - P \<in> set (finite_values (centered_of s))" unfolding C by auto
    then show "m \<le> a" using f(4) m(2) by auto
  qed
  then have "Min (set (finite_values s)) = m" using m(1) by (intro Min_eqI) auto
  then have mf: "min_finite s = Some m" using ne by (simp add: min_finite_eq)
  have pt: "shift_value (offset_of s) (center_value (peak_of s) v) =
          (if isFinite v then fsub v (Fin m) else NaN)" if vin: "v \<in> set (concat s)" for v
  proof (cases v)
    case (Fin a)
    then have a: "a \<in> set (finite_values s)" using vin by (simp add: finite_values_set)
    have cv: "center_value (peak_of s) v = Fin (a - P)"
      using exact [OF a] Fin by (simp add: center_value_def f(1))
    obtain M' where s: "offset_of s = Fin (- M')"
      "shift_value (offset_of s) (Fin (a - P)) = Fin (round_int (a - P - M'))"
      "0 \<le> round_int (a - P - M')" "round_int (a - P - M') \<le> - M'" "M' \<le> a - P" "a - P \<le> 0"
      using shift_centered_finite [OF vin cv] by blast
    have MM: "M' = M" using s(1) f(2) by simp
    obtain P' :: int and M2 :: int where "offset_of s = Fin (- M2)" "\<bar>M2\<bar> < huge" using ne by (rule finite_case)
    then have hb: "\<bar>M\<bar> < huge" using f(2) by simp
    have e: "a - P - M = a - m" using m(2) by simp
    have "\<bar>round_int (a - m)\<bar> < huge" using s(3,4) hb unfolding MM e by linarith
    then have "fsub (Fin a) (Fin m) = Fin (round_int (a - m))" by (simp add: to_double_fin)
    then show ?thesis using s(2) Fin cv unfolding MM e by simp
  qed (simp_all add: center_value_def shift_value_def)
  have "shift_value (offset_of s) (center_value (peak_of s) v) =
          (if isFinite v then fsub v (Fin m) else NaN)" if "arr \<in> set s" "v \<in> set arr" for arr v
  proof -
    from that have "v \<in> set (concat s)" by auto
    then show ?thesis by (rule pt)
  qed
  then have "map (map (\<lambda>v. shift_value (offset_of s) (center_value (peak_of s) v))) s =
      map (map (\<lambda>v. if isFinite v then fsub v (Fin m) else NaN)) s"
    by (intro map_cong refl) 
  then show ?thesis by (simp add: normalize_arrays one_stage_def mf)
qed

text \<open>
  C9, as amended: for a batch with a finite sample, \<open>Math.max(0, _)\<close> in the last
  stage never changes a value; and when the subtraction of the peak is exact on every
  finite sample, the function equals the one-stage function \<open>v - m\<close>.
\<close>

theorem one_stage_refinement:
  assumes "finite_values series \<noteq> []"
  shows "(\<forall>c\<in>set (concat (centered_of series)). isFinite c \<longrightarrow>
            Math_max (Fin 0) (fadd c (offset_of series)) = fadd c (offset_of series)) \<and>
         (centering_exact series \<longrightarrow> arrays (normalizePlaybackSeries series) = one_stage series)"
  using assms clamp_no_op one_stage_eq by blast

lemma centering_exact_example: "centering_exact [[dbl 2, dbl 12], [dbl 7, dbl 7]]"
proof -
  have p: "peak_of [[dbl 2, dbl 12], [dbl 7, dbl 7]] = dbl 12" by (simp add: eval_rules)
  have e: "fsub (Fin (a * one_dbl)) (dbl 12) = Fin (a * one_dbl - the_fin (dbl 12))"
    if "\<bar>a - 12\<bar> \<le> 2 ^ 53" for a
    using fsub_dbl [OF that] by (simp add: dbl_def left_diff_distrib)
  show ?thesis
    unfolding centering_exact_def p finite_values_def
    by (simp add: dbl_simps e)
qed

theorem one_stage_refinement_witness:
  "finite_values [[dbl 2, dbl 12], [dbl 7, dbl 7]] \<noteq> [] \<and>
   centering_exact [[dbl 2, dbl 12], [dbl 7, dbl 7]] \<and>
   isFinite (dbl (- 10)) \<and> dbl (- 10) \<in> set (concat (centered_of [[dbl 2, dbl 12], [dbl 7, dbl 7]])) \<and>
   Math_max (Fin 0) (fadd (dbl (- 10)) (offset_of [[dbl 2, dbl 12], [dbl 7, dbl 7]])) =
     fadd (dbl (- 10)) (offset_of [[dbl 2, dbl 12], [dbl 7, dbl 7]]) \<and>
   one_stage [[dbl 2, dbl 12], [dbl 7, dbl 7]] = [[dbl 0, dbl 10], [dbl 5, dbl 5]]"
proof -
  have ne: "finite_values [[dbl 2, dbl 12], [dbl 7, dbl 7]] \<noteq> []"
    by (simp add: finite_values_def dbl_def)
  have c: "centered_of [[dbl 2, dbl 12], [dbl 7, dbl 7]] = [[dbl (- 10), dbl 0], [dbl (- 5), dbl (- 5)]]"
    by (simp add: eval_rules)
  have a: "arrays (normalizePlaybackSeries [[dbl 2, dbl 12], [dbl 7, dbl 7]]) = [[dbl 0, dbl 10], [dbl 5, dbl 5]]"
    by (simp add: eval_rules)
  show ?thesis
    using one_stage_refinement [OF ne] centering_exact_example ne
    by (simp add: c a dbl_simps)
qed

text \<open>
  C9 as stated fails when the centring rounds: in \<open>[[2^54, 3, 0]]\<close> the sample 3 is
  centred to \<open>3 - 2^54\<close>, which rounds to \<open>4 - 2^54\<close> (a tie, to the even significand),
  and comes out as 4, while the one-stage function gives \<open>3 - 0 = 3\<close>.
\<close>

theorem one_stage_counterexample:
  "list_all is_double [dbl (2 ^ 54), dbl 3, dbl 0] \<and>
   arrays (normalizePlaybackSeries [[dbl (2 ^ 54), dbl 3, dbl 0]]) = [[dbl (2 ^ 54), dbl 4, dbl 0]] \<and>
   one_stage [[dbl (2 ^ 54), dbl 3, dbl 0]] = [[dbl (2 ^ 54), dbl 3, dbl 0]] \<and>
   arrays (normalizePlaybackSeries [[dbl (2 ^ 54), dbl 3, dbl 0]]) \<noteq> one_stage [[dbl (2 ^ 54), dbl 3, dbl 0]]"
  unfolding rounding_example one_stage_example
  using example_is_double by (simp add: dbl_simps)

lemma the_fin_dbl: "the_fin (dbl a) = a * one_dbl"
  by (simp add: dbl_def)

lemma exact_at_dbl:
  assumes "peak_of s = dbl p" "offset_of s = dbl off" "\<bar>a - p\<bar> \<le> 2 ^ 53" "\<bar>a - p + off\<bar> \<le> 2 ^ 53"
  shows "exact_at s (a * one_dbl)"
proof -
  have "fsub (Fin (a * one_dbl)) (dbl p) = Fin (a * one_dbl - p * one_dbl)"
    using fsub_dbl [OF assms(3)] by (simp add: dbl_def left_diff_distrib)
  moreover have "fadd (Fin (a * one_dbl - p * one_dbl)) (dbl off) =
      Fin (a * one_dbl - p * one_dbl + off * one_dbl)"
    using fadd_dbl [OF assms(4)] by (simp add: dbl_def left_diff_distrib distrib_right)
  ultimately show ?thesis by (simp add: exact_at_def assms(1,2) the_fin_dbl)
qed

text \<open>
  C5, as amended: for two positions whose input samples are finite and on which neither
  the subtraction of the peak nor the addition of the offset rounds or overflows, the
  difference of the two outputs equals the difference of the two inputs.
\<close>

theorem differences_preserved:
  assumes "i < length series" "j < length (series ! i)"
    and "k < length series" "l < length (series ! k)"
    and "series ! i ! j = Fin a" "series ! k ! l = Fin b"
    and "exact_at series a" "exact_at series b"
  shows "\<exists>x y. arrays (normalizePlaybackSeries series) ! i ! j = Fin x \<and>
               arrays (normalizePlaybackSeries series) ! k ! l = Fin y \<and>
               x - y = a - b"
proof -
  note at1 = output_at [OF assms(1,2)] and at2 = output_at [OF assms(3,4)]
  have "a \<in> set (finite_values series)" using at1(2) assms(5) by (simp add: finite_values_set)
  then have ne: "finite_values series \<noteq> []" by auto
  define p where "p = the_fin (peak_of series)"
  define off where "off = the_fin (offset_of series)"
  have po: "peak_of series = Fin p" "offset_of series = Fin off"
    unfolding p_def off_def using ne by (rule the_fin_peak)+
  have out: "shift_value (offset_of series) (center_value (peak_of series) (Fin d)) = Fin (d - p + off)"
    if vin: "Fin d \<in> set (concat series)" and ex: "exact_at series d" for d
  proof -
    have cv: "center_value (peak_of series) (Fin d) = Fin (d - p)"
      using ex by (simp add: exact_at_def center_value_def p_def)
    have ad: "fadd (Fin (d - p)) (offset_of series) = Fin (d - p + off)"
      using ex by (simp add: exact_at_def p_def off_def)
    obtain M where "fadd (Fin (d - p)) (offset_of series) = Fin (round_int (d - p - M))"
      "shift_value (offset_of series) (Fin (d - p)) = Fin (round_int (d - p - M))"
      using shift_centered_finite [OF vin cv] by blast
    then show ?thesis using cv ad by simp
  qed
  have 1: "arrays (normalizePlaybackSeries series) ! i ! j = Fin (a - p + off)"
    using out [of a] at1 assms(5,7) by simp
  have 2: "arrays (normalizePlaybackSeries series) ! k ! l = Fin (b - p + off)"
    using out [of b] at2 assms(6,8) by simp
  show ?thesis using 1 2 by simp
qed

theorem differences_preserved_witness:
  "(0::nat) < length [[dbl 0, dbl 10], [dbl 5, dbl 5]] \<and>
   (1::nat) < length ([[dbl 0, dbl 10], [dbl 5, dbl 5]] ! 0) \<and>
   (1::nat) < length [[dbl 0, dbl 10], [dbl 5, dbl 5]] \<and>
   (0::nat) < length ([[dbl 0, dbl 10], [dbl 5, dbl 5]] ! 1) \<and>
   [[dbl 0, dbl 10], [dbl 5, dbl 5]] ! 0 ! 1 = Fin (10 * one_dbl) \<and>
   [[dbl 0, dbl 10], [dbl 5, dbl 5]] ! 1 ! 0 = Fin (5 * one_dbl) \<and>
   exact_at [[dbl 0, dbl 10], [dbl 5, dbl 5]] (10 * one_dbl) \<and>
   exact_at [[dbl 0, dbl 10], [dbl 5, dbl 5]] (5 * one_dbl) \<and>
   (\<exists>x y. arrays (normalizePlaybackSeries [[dbl 0, dbl 10], [dbl 5, dbl 5]]) ! 0 ! 1 = Fin x \<and>
          arrays (normalizePlaybackSeries [[dbl 0, dbl 10], [dbl 5, dbl 5]]) ! 1 ! 0 = Fin y \<and>
          x - y = 10 * one_dbl - 5 * one_dbl)"
proof -
  let ?s = "[[dbl 0, dbl 10], [dbl 5, dbl 5]]"
  have p: "peak_of ?s = dbl 10" and off: "offset_of ?s = dbl 10" by (simp_all add: eval_rules)
  have e1: "exact_at ?s (10 * one_dbl)" by (rule exact_at_dbl [OF p off]) simp_all
  have e2: "exact_at ?s (5 * one_dbl)" by (rule exact_at_dbl [OF p off]) simp_all
  have i1: "?s ! 0 ! 1 = Fin (10 * one_dbl)" and i2: "?s ! 1 ! 0 = Fin (5 * one_dbl)"
    by (simp_all add: dbl_def)
  have l: "(0::nat) < length ?s" "(1::nat) < length (?s ! 0)" "(1::nat) < length ?s"
    "(0::nat) < length (?s ! 1)" by simp_all
  show ?thesis
    using differences_preserved [OF l i1 i2 e1 e2] e1 e2 i1 i2 by simp
qed

text \<open>
  C5 as stated fails when the centring rounds: in \<open>[[2^54, 3, 0]]\<close> the samples 3 and 0
  differ by 3, their outputs 4 and 0 differ by 4.
\<close>

theorem differences_counterexample:
  "list_all is_double [dbl (2 ^ 54), dbl 3, dbl 0] \<and>
   [[dbl (2 ^ 54), dbl 3, dbl 0]] ! 0 ! 1 = Fin (3 * one_dbl) \<and>
   [[dbl (2 ^ 54), dbl 3, dbl 0]] ! 0 ! 2 = Fin (0 * one_dbl) \<and>
   arrays (normalizePlaybackSeries [[dbl (2 ^ 54), dbl 3, dbl 0]]) ! 0 ! 1 = Fin (4 * one_dbl) \<and>
   arrays (normalizePlaybackSeries [[dbl (2 ^ 54), dbl 3, dbl 0]]) ! 0 ! 2 = Fin (0 * one_dbl) \<and>
   4 * one_dbl - 0 * one_dbl \<noteq> 3 * one_dbl - 0 * one_dbl"
  unfolding rounding_example
  using example_is_double one_dbl_pos by (simp add: dbl_def)

section \<open>Applying the function twice\<close>

lemma rep53_small: "n < 2 ^ 53 \<Longrightarrow> rep53 n"
  by (simp add: rep53_def shift_of_small)

lemma rep53_half:
  assumes "rep53 w" "2 ^ 53 \<le> w"
  shows "even w" and "rep53 (w div 2)"
proof -
  define t where "t = shift_of (w div 2)"
  have s: "shift_of w = Suc t" unfolding t_def using assms(2) by (rule shift_of_large)
  then have "2 ^ 1 dvd w" using assms(1) by (intro rep53_dvd) simp_all
  then show "even w" by simp
  have "2 ^ Suc t dvd w" using assms(1) by (simp add: rep53_def s)
  then obtain c where c: "w = c * 2 ^ Suc t" by (auto simp: dvd_def mult.commute)
  have "w div 2 ^ Suc t = c" by (simp only: c nonzero_mult_div_cancel_right) simp
  then have c1: "c < 2 ^ 53" using quot_bound [of w] by (simp only: s)
  have "0 \<le> c * 2 ^ Suc t" using assms(2) c by simp
  then have c0: "0 \<le> c" by (simp add: zero_le_mult_iff)
  have "w = 2 * (c * 2 ^ t)" using c by simp
  then have "w div 2 = c * 2 ^ t" by simp
  moreover have "rep53 (c * 2 ^ t)" using c0 c1 by (intro rep53_mult) simp_all
  ultimately show "rep53 (w div 2)" by simp
qed

text \<open>
  Adding a representable \<open>w\<close> to a representable \<open>- d\<close> with \<open>0 \<le> d \<le> w\<close> and rounding
  gives a value \<open>k\<close> whose distance to \<open>w\<close> is representable again.
\<close>

lemma round_back:
  assumes "rep53 w" "rep53 d" "0 \<le> d" "d \<le> w"
  shows "rep53 (w - round_sig (w - d))"
proof -
  define k where "k = round_sig (w - d)"
  have t0: "0 \<le> w - d" using assms by simp
  have kw: "k \<le> w" unfolding k_def using assms by (intro round_sig_le) simp_all
  have k0: "0 \<le> k" unfolding k_def using t0 by (rule round_sig_nonneg)
  have kr: "rep53 k" unfolding k_def using t0 by (rule round_sig_rep)
  show ?thesis
  proof (cases "w \<le> 2 * d")
    case True
    have "rep53 (w - d)" using assms(1,2,3,4) True by (rule sterbenz)
    then have "k = w - d" unfolding k_def by (rule round_sig_exact)
    then have "w - k = d" by simp
    then show ?thesis using assms(2) by (simp add: k_def)
  next
    case False
    have "w \<le> 2 * k"
    proof (cases "w - d < 2 ^ 53")
      case True
      then have "rep53 (w - d)" by (rule rep53_small)
      then have "k = w - d" unfolding k_def by (rule round_sig_exact)
      then show ?thesis using False by simp
    next
      case big: False
      then have wb: "2 ^ 53 \<le> w" using assms(3) by simp
      have ev: "even w" and hr: "rep53 (w div 2)" using assms(1) wb by (rule rep53_half)+
      have w2: "w = 2 * (w div 2)" using ev by simp
      have "w div 2 \<le> w - d" using False w2 by linarith
      moreover have "0 \<le> w div 2" using wb by simp
      ultimately have "w div 2 \<le> k" unfolding k_def using hr by (intro round_sig_ge) simp_all
      then show ?thesis using w2 by linarith
    qed
    then have "rep53 (w - k)" using assms(1) kr k0 kw by (intro sterbenz) simp_all
    then show ?thesis by (simp add: k_def)
  qed
qed

lemma output_props:
  assumes "u \<in> set (concat (arrays (normalizePlaybackSeries s)))" "offset_of s = Fin w"
  shows "u = NaN \<or> (\<exists>k. u = Fin k \<and> 0 \<le> k \<and> k \<le> w \<and> rep53 k \<and> rep53 (w - k) \<and> w < huge)"
proof -
  have ne: "s \<noteq> []" using assms(1) by (auto simp: normalize_arrays)
  have "u \<in> set (map (\<lambda>v. shift_value (offset_of s) (center_value (peak_of s) v)) (concat s))"
    using assms(1) ne by (simp only: normalize_arrays if_False concat_map_map)
  then have "\<exists>v\<in>set (concat s). shift_value (offset_of s) (center_value (peak_of s) v) = u"
    by (rule in_set_mapD)
  then obtain v where v: "v \<in> set (concat s)"
    "shift_value (offset_of s) (center_value (peak_of s) v) = u" by blast
  show ?thesis
  proof (cases "center_value (peak_of s) v")
    case (Fin c)
    have cin: "c \<in> set (finite_values (centered_of s))"
      using v(1) Fin unfolding centered_of_eq finite_values_map by blast
    then have fne: "finite_values s \<noteq> []" by (rule centered_finite_imp)
    obtain P :: int and M :: int where f: "offset_of s = Fin (- M)" "rep53 \<bar>M\<bar>" "\<bar>M\<bar> < huge" "M \<le> 0"
      "\<forall>c\<in>set (finite_values (centered_of s)). M \<le> c \<and> c \<le> 0 \<and> rep53 \<bar>c\<bar>"
      using fne by (rule finite_case)
    have w: "w = - M" using f(1) assms(2) by simp
    have b: "M \<le> c" "c \<le> 0" "rep53 \<bar>c\<bar>" using f(5) cin by auto
    have sv: "shift_value (Fin (- M)) (Fin c) = Fin (round_int (c - M))"
      and lo: "0 \<le> round_int (c - M)" and hi: "round_int (c - M) \<le> - M"
      using f(2,3) b(1,2) by (rule shift_value_Fin)+
    have rw: "rep53 w" using f(2,4) w by simp
    have rd: "rep53 (- c)" using b(2,3) by simp
    have e: "round_int (c - M) = round_sig (w - (- c))" using b(1) w by (simp add: round_int_nonneg)
    have "rep53 (w - round_sig (w - (- c)))" using rw rd b(1,2) w by (intro round_back) simp_all
    moreover have "rep53 (round_sig (w - (- c)))" using b(1) w by (intro round_sig_rep) simp
    moreover have "u = Fin (round_int (c - M))" using v(2) Fin sv f(1) by simp
    moreover have "w < huge" using f(3,4) w by simp
    ultimately show ?thesis using lo hi e w by auto
  qed (use v(2) in \<open>simp_all add: shift_value_def\<close>)
qed

lemma normalize_twice:
  "arrays (normalizePlaybackSeries (arrays (normalizePlaybackSeries s))) =
   arrays (normalizePlaybackSeries s)"
proof (cases "finite_values s = []")
  case True
  have out: "arrays (normalizePlaybackSeries s) = map (map (\<lambda>v. NaN)) s"
    using True by (rule normalize_no_finite)
  have "set (finite_values (map (map (\<lambda>v. NaN)) s)) = {}"
    unfolding finite_values_map by simp
  then have "finite_values (map (map (\<lambda>v. NaN)) s) = []" by simp
  then have "arrays (normalizePlaybackSeries (map (map (\<lambda>v. NaN)) s)) =
      map (map (\<lambda>v. NaN)) (map (map (\<lambda>v. NaN)) s)"
    by (rule normalize_no_finite)
  then show ?thesis by (simp add: out comp_def)
next
  case False
  let ?out = "arrays (normalizePlaybackSeries s)"
  obtain P :: int and M :: int where f: "offset_of s = Fin (- M)" using False by (rule finite_case)
  define w where "w = - M"
  have off: "offset_of s = Fin w" using f by (simp add: w_def)
  have props: "u = NaN \<or> (\<exists>k. u = Fin k \<and> 0 \<le> k \<and> k \<le> w \<and> rep53 k \<and> rep53 (w - k) \<and> w < huge)"
    if "u \<in> set (concat ?out)" for u
    using that off by (rule output_props)
  have z: "0 \<in> set (finite_values ?out)" using False by (rule zero_is_output)
  then have one: "finite_values ?out \<noteq> []" by auto
  have win: "w \<in> set (finite_values ?out)" using False off by (rule offset_is_output)
  have "Max (set (finite_values ?out)) = w"
    using win outputs_le_offset [OF _ off] by (intro Max_eqI) auto
  then have pk: "peak_of ?out = Fin w" using one by (simp add: peak_of_finite)
  have "Min (set (finite_values ?out)) = 0" using z outputs_nonneg by (intro Min_eqI) auto
  then have mf: "min_finite ?out = Some 0" using one by (simp add: min_finite_eq)
  have ex: "centering_exact ?out"
    unfolding centering_exact_def list_all_iff pk
  proof
    fix k assume "k \<in> set (finite_values ?out)"
    then have "Fin k \<in> set (concat ?out)" by (simp add: finite_values_set)
    then have k: "0 \<le> k" "k \<le> w" "rep53 (w - k)" "w < huge" using props by auto
    have "rep53 \<bar>k - w\<bar>" using k(2,3) by (simp add: abs_minus_commute)
    moreover have "\<bar>k - w\<bar> < huge" using k by simp
    ultimately show "fsub (Fin k) (Fin w) = Fin (k - the_fin (Fin w))"
      by (simp add: to_double_exact)
  qed
  have id: "(if isFinite u then fsub u (Fin 0) else NaN) = u" if uin: "u \<in> set (concat ?out)" for u
  proof -
    consider "u = NaN" | k where "u = Fin k" "0 \<le> k" "k \<le> w" "rep53 k" "w < huge"
      using props [OF uin] by blast
    then show ?thesis
    proof cases
      case 1
      then show ?thesis by simp
    next
      case 2
      then have "to_double k = Fin k" by (intro to_double_exact) simp_all
      then show ?thesis using 2(1) by simp
    qed
  qed
  have "(if isFinite u then fsub u (Fin 0) else NaN) = u" if "arr \<in> set ?out" "u \<in> set arr" for arr u
  proof -
    from that have "u \<in> set (concat ?out)" by auto
    then show ?thesis by (rule id)
  qed
  then have "map (map (\<lambda>u. if isFinite u then fsub u (Fin 0) else NaN)) ?out = map (map (\<lambda>u. u)) ?out"
    by (intro map_cong refl)
  then have "one_stage ?out = ?out" by (simp add: one_stage_def mf)
  moreover have "arrays (normalizePlaybackSeries ?out) = one_stage ?out"
    using one ex by (rule one_stage_eq)
  ultimately show ?thesis by simp
qed

text \<open>
  C3, as amended: the function is idempotent. On every batch, applying it twice gives
  the output of applying it once: after the first pass the least finite value is 0 and
  the greatest is the offset \<open>w\<close>, every finite output \<open>k\<close> has \<open>k - w\<close> representable,
  so the second pass subtracts \<open>w\<close> and adds \<open>w\<close> back without rounding.
\<close>

theorem twice_is_once:
  "arrays (normalizePlaybackSeries (arrays (normalizePlaybackSeries series))) =
   arrays (normalizePlaybackSeries series)"
  by (rule normalize_twice)

text \<open>
  C3 as stated, that some batch gives a different output on the second application,
  is false.
\<close>

theorem not_idempotent_counterexample:
  "\<not> (\<exists>series. arrays (normalizePlaybackSeries (arrays (normalizePlaybackSeries series))) \<noteq>
        arrays (normalizePlaybackSeries series))"
  by (simp add: normalize_twice)

section \<open>The store is only extended\<close>

lemma fill_step:
  assumes "k < length xs" "length ys = length xs"
  shows "(map g (take k xs) @ drop k ys)[k := g (xs ! k)] = map g (take (Suc k) xs) @ drop (Suc k) ys"
proof -
  have "(map g (take k xs) @ drop k ys)[k := g (xs ! k)] = map g (take k xs) @ (drop k ys)[0 := g (xs ! k)]"
    using assms by (simp add: list_update_append)
  also have "(drop k ys)[0 := g (xs ! k)] = g (xs ! k) # drop (Suc k) ys"
    using assms by (simp add: Cons_nth_drop_Suc [symmetric])
  finally show ?thesis using assms by (simp add: take_Suc_conv_app_nth)
qed

lemma upt_loop: "fold f [0..<Suc k] s = f k (fold f [0..<k] s)"
  by simp

lemma set_at_upd:
  "set_at dst i v (st\<lparr>arr := (arr st)(dst := ys)\<rparr>) = st\<lparr>arr := (arr st)(dst := ys[i := v])\<rparr>"
  by (simp add: set_at_def)

lemma center_fill:
  assumes "dst \<noteq> src" "length (arr st dst) = length (arr st src)" "k \<le> length (arr st src)"
  shows "fold (\<lambda>i (st, mn).
                  let value = arr st src ! i;
                      normalizedValue = center_value peak value
                  in (set_at dst i normalizedValue st, min_step normalizedValue mn))
             [0..<k] (st, mn) =
         (st\<lparr>arr := (arr st)(dst := map (center_value peak) (take k (arr st src)) @ drop k (arr st dst))\<rparr>,
          fold min_step (map (center_value peak) (take k (arr st src))) mn)"
    (is "fold ?step [0..<k] (st, mn) = (?S k, ?m k)")
  using assms(3)
proof (induction k)
  case 0
  show ?case by simp
next
  case (Suc k)
  then have k: "k < length (arr st src)" by simp
  have ih: "fold ?step [0..<k] (st, mn) = (?S k, ?m k)"
    by (rule Suc.IH) (use Suc.prems in simp)
  let ?v = "center_value peak (arr st src ! k)"
  have "fold ?step [0..<Suc k] (st, mn) = ?step k (fold ?step [0..<k] (st, mn))" by simp
  also have "\<dots> = ?step k (?S k, ?m k)" by (simp only: ih)
  also have "\<dots> = (set_at dst k ?v (?S k), min_step ?v (?m k))"
    using assms(1) by (simp add: Let_def)
  also have "set_at dst k ?v (?S k) =
      st\<lparr>arr := (arr st)(dst := (map (center_value peak) (take k (arr st src)) @ drop k (arr st dst))[k := ?v])\<rparr>"
    by (rule set_at_upd)
  also have "(map (center_value peak) (take k (arr st src)) @ drop k (arr st dst))[k := ?v] =
      map (center_value peak) (take (Suc k) (arr st src)) @ drop (Suc k) (arr st dst)"
    using k assms(2) by (rule fill_step)
  also have "min_step ?v (?m k) = ?m (Suc k)"
    using k by (simp add: take_Suc_conv_app_nth)
  finally show ?case .
qed

lemma shift_fill:
  assumes "dst \<noteq> src" "length (arr st dst) = length (arr st src)" "k \<le> length (arr st src)"
  shows "fold (\<lambda>i st. set_at dst i (shift_value offset (arr st src ! i)) st) [0..<k] st =
         st\<lparr>arr := (arr st)(dst := map (shift_value offset) (take k (arr st src)) @ drop k (arr st dst))\<rparr>"
    (is "fold ?step [0..<k] st = ?S k")
  using assms(3)
proof (induction k)
  case 0
  show ?case by simp
next
  case (Suc k)
  then have k: "k < length (arr st src)" by simp
  have ih: "fold ?step [0..<k] st = ?S k"
    by (rule Suc.IH) (use Suc.prems in simp)
  let ?v = "shift_value offset (arr st src ! k)"
  have "fold ?step [0..<Suc k] st = ?step k (fold ?step [0..<k] st)" by simp
  also have "\<dots> = ?step k (?S k)" by (simp only: ih)
  also have "\<dots> = set_at dst k ?v (?S k)"
    using assms(1) by simp
  also have "\<dots> =
      st\<lparr>arr := (arr st)(dst := (map (shift_value offset) (take k (arr st src)) @ drop k (arr st dst))[k := ?v])\<rparr>"
    by (rule set_at_upd)
  also have "(map (shift_value offset) (take k (arr st src)) @ drop k (arr st dst))[k := ?v] =
      map (shift_value offset) (take (Suc k) (arr st src)) @ drop (Suc k) (arr st dst)"
    using k assms(2) by (rule fill_step)
  finally show ?case .
qed

lemma center_source_eq:
  assumes "source < free st"
  shows "center_source peak source (st, mn) =
           (free st,
            st\<lparr>arr := (arr st)(free st := map (center_value peak) (arr st source)), free := Suc (free st)\<rparr>,
            fold min_step (map (center_value peak) (arr st source)) mn)"
proof -
  define st1 where "st1 = st\<lparr>arr := (arr st)(free st := replicate (length (arr st source)) NaN), free := Suc (free st)\<rparr>"
  have ne: "free st \<noteq> source" using assms by simp
  have src: "arr st1 source = arr st source" using ne by (simp add: st1_def)
  have dst: "arr st1 (free st) = replicate (length (arr st source)) NaN" by (simp add: st1_def)
  have "fold (\<lambda>i (st, mn).
                  let value = arr st source ! i;
                      normalizedValue = center_value peak value
                  in (set_at (free st1 - 1) i normalizedValue st, min_step normalizedValue mn))
             [0..<length (arr st1 source)] (st1, mn) =
         (st1\<lparr>arr := (arr st1)(free st1 - 1 := map (center_value peak) (take (length (arr st1 source)) (arr st1 source))
              @ drop (length (arr st1 source)) (arr st1 (free st1 - 1)))\<rparr>,
          fold min_step (map (center_value peak) (take (length (arr st1 source)) (arr st1 source))) mn)"
    using ne by (intro center_fill) (simp_all add: st1_def)
  then have "fold (\<lambda>i (s, m).
                  let value = arr s source ! i;
                      normalizedValue = center_value peak value
                  in (set_at (free st) i normalizedValue s, min_step normalizedValue m))
             [0..<length (arr st source)] (st1, mn) =
         (st1\<lparr>arr := (arr st1)(free st := map (center_value peak) (arr st source))\<rparr>,
          fold min_step (map (center_value peak) (arr st source)) mn)"
    unfolding src dst by (simp add: st1_def)
  then show ?thesis
    by (simp add: center_source_def new_Array_def st1_def [symmetric]) (simp add: st1_def)
qed

lemma shift_source_eq:
  assumes "source < free st"
  shows "shift_source offset source st =
           (free st,
            st\<lparr>arr := (arr st)(free st := map (shift_value offset) (arr st source)), free := Suc (free st)\<rparr>)"
proof -
  define st1 where "st1 = st\<lparr>arr := (arr st)(free st := replicate (length (arr st source)) NaN), free := Suc (free st)\<rparr>"
  have ne: "free st \<noteq> source" using assms by simp
  have src: "arr st1 source = arr st source" using ne by (simp add: st1_def)
  have dst: "arr st1 (free st) = replicate (length (arr st source)) NaN" by (simp add: st1_def)
  have "fold (\<lambda>i s. set_at (free st1 - 1) i (shift_value offset (arr s source ! i)) s)
             [0..<length (arr st1 source)] st1 =
         st1\<lparr>arr := (arr st1)(free st1 - 1 := map (shift_value offset) (take (length (arr st1 source)) (arr st1 source))
              @ drop (length (arr st1 source)) (arr st1 (free st1 - 1)))\<rparr>"
    using ne by (intro shift_fill) (simp_all add: st1_def)
  then have "fold (\<lambda>i s. set_at (free st) i (shift_value offset (arr s source ! i)) s)
             [0..<length (arr st source)] st1 =
         st1\<lparr>arr := (arr st1)(free st := map (shift_value offset) (arr st source))\<rparr>"
    unfolding src dst by (simp add: st1_def)
  then show ?thesis
    by (simp add: shift_source_def new_Array_def st1_def [symmetric]) (simp add: st1_def)
qed

lemma fold_nth: "fold (\<lambda>i. f (xs ! i)) [0..<length xs] acc = fold f xs acc"
proof -
  have "fold f (map (\<lambda>i. xs ! i) [0..<length xs]) acc = fold (\<lambda>i. f (xs ! i)) [0..<length xs] acc"
    by (simp add: fold_map comp_def)
  then show ?thesis by (simp add: map_nth)
qed

lemma peak_loop_eq: "peak_loop st series = find_peak (map (arr st) series)"
  by (simp add: peak_loop_def find_peak_def fold_nth fold_map comp_def)

lemma centered_loop_props:
  assumes "\<forall>a\<in>set series. a < free st" "centered_loop peak series (st, mn) = (cs, st', mn')"
  shows "mn' = fold min_step (concat (map (map (center_value peak)) (map (arr st) series))) mn \<and>
         map (arr st') cs = map (map (center_value peak)) (map (arr st) series) \<and>
         (\<forall>a<free st. arr st' a = arr st a) \<and>
         free st \<le> free st' \<and>
         (\<forall>c\<in>set cs. free st \<le> c \<and> c < free st')"
  using assms
proof (induction series arbitrary: st mn cs st' mn')
  case Nil
  then show ?case by auto
next
  case (Cons source rest)
  define st1 where "st1 = st\<lparr>arr := (arr st)(free st := map (center_value peak) (arr st source)), free := Suc (free st)\<rparr>"
  define mn1 where "mn1 = fold min_step (map (center_value peak) (arr st source)) mn"
  note all = Cons.prems(1) and run = Cons.prems(2)
  have src: "source < free st" using all by simp
  have cs1: "center_source peak source (st, mn) = (free st, st1, mn1)"
    unfolding st1_def mn1_def using src by (rule center_source_eq)
  obtain cr st2 mn2 where r: "centered_loop peak rest (st1, mn1) = (cr, st2, mn2)"
    by (cases "centered_loop peak rest (st1, mn1)") auto
  have res: "cs = free st # cr" "st' = st2" "mn' = mn2"
    using run by (simp_all add: cs1 r)
  have all1: "\<forall>a\<in>set rest. a < free st1" using all by (auto simp: st1_def)
  have same: "map (arr st1) rest = map (arr st) rest" using all by (auto simp: st1_def)
  have ih: "mn2 = fold min_step (concat (map (map (center_value peak)) (map (arr st1) rest))) mn1"
    "map (arr st2) cr = map (map (center_value peak)) (map (arr st1) rest)"
    "\<forall>a<free st1. arr st2 a = arr st1 a" "free st1 \<le> free st2"
    "\<forall>c\<in>set cr. free st1 \<le> c \<and> c < free st2"
    using Cons.IH [OF all1 r] by blast+
  have f1: "free st1 = Suc (free st)" by (simp add: st1_def)
  have 1: "mn' = fold min_step (concat (map (map (center_value peak)) (map (arr st) (source # rest)))) mn"
    using ih(1) by (simp add: res same mn1_def)
  have "arr st2 (free st) = arr st1 (free st)" using ih(3) f1 by simp
  then have "arr st2 (free st) = map (center_value peak) (arr st source)" by (simp add: st1_def)
  then have 2: "map (arr st') cs = map (map (center_value peak)) (map (arr st) (source # rest))"
    using ih(2) by (simp add: res same)
  have 3: "\<forall>a<free st. arr st' a = arr st a"
  proof (intro allI impI)
    fix a assume a: "a < free st"
    then have "arr st2 a = arr st1 a" using ih(3) f1 by simp
    then show "arr st' a = arr st a" using a by (simp add: res st1_def)
  qed
  have 4: "free st \<le> free st'" using ih(4) f1 by (simp add: res)
  have 5: "\<forall>c\<in>set cs. free st \<le> c \<and> c < free st'"
    using ih(4,5) f1 by (auto simp: res)
  show ?case using 1 2 3 4 5 by blast
qed

lemma shifted_loop_props:
  assumes "\<forall>a\<in>set cs. a < free st" "shifted_loop offset cs st = (out, st')"
  shows "map (arr st') out = map (map (shift_value offset)) (map (arr st) cs) \<and>
         (\<forall>a<free st. arr st' a = arr st a) \<and>
         free st \<le> free st' \<and>
         (\<forall>c\<in>set out. free st \<le> c \<and> c < free st')"
  using assms
proof (induction cs arbitrary: st out st')
  case Nil
  then show ?case by auto
next
  case (Cons source rest)
  define st1 where "st1 = st\<lparr>arr := (arr st)(free st := map (shift_value offset) (arr st source)), free := Suc (free st)\<rparr>"
  note all = Cons.prems(1) and run = Cons.prems(2)
  have src: "source < free st" using all by simp
  have cs1: "shift_source offset source st = (free st, st1)"
    unfolding st1_def using src by (rule shift_source_eq)
  obtain cr st2 where r: "shifted_loop offset rest st1 = (cr, st2)"
    by (cases "shifted_loop offset rest st1") auto
  have res: "out = free st # cr" "st' = st2"
    using run by (simp_all add: cs1 r)
  have all1: "\<forall>a\<in>set rest. a < free st1" using all by (auto simp: st1_def)
  have same: "map (arr st1) rest = map (arr st) rest" using all by (auto simp: st1_def)
  have ih: "map (arr st2) cr = map (map (shift_value offset)) (map (arr st1) rest)"
    "\<forall>a<free st1. arr st2 a = arr st1 a" "free st1 \<le> free st2"
    "\<forall>c\<in>set cr. free st1 \<le> c \<and> c < free st2"
    using Cons.IH [OF all1 r] by blast+
  have f1: "free st1 = Suc (free st)" by (simp add: st1_def)
  have "arr st2 (free st) = arr st1 (free st)" using ih(2) f1 by simp
  then have "arr st2 (free st) = map (shift_value offset) (arr st source)" by (simp add: st1_def)
  then have 2: "map (arr st') out = map (map (shift_value offset)) (map (arr st) (source # rest))"
    using ih(1) by (simp add: res same)
  have 3: "\<forall>a<free st. arr st' a = arr st a"
  proof (intro allI impI)
    fix a assume a: "a < free st"
    then have "arr st2 a = arr st1 a" using ih(2) f1 by simp
    then show "arr st' a = arr st a" using a by (simp add: res st1_def)
  qed
  have 4: "free st \<le> free st'" using ih(3) f1 by (simp add: res)
  have 5: "\<forall>c\<in>set out. free st \<le> c \<and> c < free st'"
    using ih(3,4) f1 by (auto simp: res)
  show ?case using 2 3 4 5 by blast
qed

lemma normalize_store_props:
  assumes "\<forall>a\<in>set series. a < free st" "normalize_store st series = (out, st')"
  shows "map (arr st') out = arrays (normalizePlaybackSeries (map (arr st) series)) \<and>
         (\<forall>a<free st. arr st' a = arr st a) \<and>
         (\<forall>c\<in>set out. free st \<le> c)"
proof (cases "series = []")
  case True
  then show ?thesis using assms(2) by (auto simp: normalize_store_def normalizePlaybackSeries_def)
next
  case False
  define ss where "ss = map (arr st) series"
  define peak where "peak = (if \<not> isFinite (find_peak ss) then Fin 0 else find_peak ss)"
  obtain cs st1 mn where c: "centered_loop peak series (st, PInf) = (cs, st1, mn)"
    by (cases "centered_loop peak series (st, PInf)") auto
  define offset where "offset = (if isFinite mn then fneg mn else Fin 0)"
  have c': "centered_loop (if \<not> isFinite (find_peak (map (arr st) series)) then Fin 0
      else find_peak (map (arr st) series)) series (st, PInf) = (cs, st1, mn)"
    using c unfolding peak_def ss_def .
  have run: "shifted_loop offset cs st1 = (out, st')"
    using assms(2) False
    by (simp add: normalize_store_def peak_loop_eq Let_def c' offset_def)
  have cp: "mn = fold min_step (concat (map (map (center_value peak)) ss)) PInf"
    "map (arr st1) cs = map (map (center_value peak)) ss"
    "\<forall>a<free st. arr st1 a = arr st a" "free st \<le> free st1"
    "\<forall>c\<in>set cs. free st \<le> c \<and> c < free st1"
    using centered_loop_props [OF assms(1) c] unfolding ss_def by blast+
  have all1: "\<forall>a\<in>set cs. a < free st1" using cp(5) by blast
  have sp: "map (arr st') out = map (map (shift_value offset)) (map (arr st1) cs)"
    "\<forall>a<free st1. arr st' a = arr st1 a" "\<forall>c\<in>set out. free st1 \<le> c \<and> c < free st'"
    using shifted_loop_props [OF all1 run] by blast+
  have ne: "ss \<noteq> []" using False by (simp add: ss_def)
  have "arrays (normalizePlaybackSeries ss) = map (map (shift_value offset)) (map (map (center_value peak)) ss)"
    using ne by (simp add: normalizePlaybackSeries_def Let_def center_series_eq peak_def offset_def cp(1))
  then have 1: "map (arr st') out = arrays (normalizePlaybackSeries ss)"
    using sp(1) cp(2) by simp
  have 2: "\<forall>a<free st. arr st' a = arr st a"
  proof (intro allI impI)
    fix a assume a: "a < free st"
    then have "a < free st1" using cp(4) by simp
    then show "arr st' a = arr st a" using sp(2) cp(3) a by simp
  qed
  have 3: "\<forall>c\<in>set out. free st \<le> c" using sp(3) cp(4) by auto
  show ?thesis using 1 2 3 unfolding ss_def by blast
qed

text \<open>
  C10: the function is deterministic and pure. On the store, the contents of the
  arrays it returns are the function \<open>normalizePlaybackSeries\<close> of the contents of the
  input arrays, so two calls on inputs with the same contents (in any two stores, at any
  addresses) return the same contents; every array that existed before the call, the
  input arrays among them, has the contents it had; and the arrays returned are new.
\<close>

theorem pure_and_deterministic:
  assumes "\<forall>a\<in>set series. a < free st" "normalize_store st series = (out, st')"
    and "\<forall>a\<in>set series2. a < free st2" "normalize_store st2 series2 = (out2, st2')"
    and "map (arr st) series = map (arr st2) series2"
  shows "map (arr st') out = map (arr st2') out2 \<and>
         map (arr st') out = arrays (normalizePlaybackSeries (map (arr st) series)) \<and>
         (\<forall>a<free st. arr st' a = arr st a) \<and>
         (\<forall>c\<in>set out. free st \<le> c)"
  using normalize_store_props [OF assms(1,2)] normalize_store_props [OF assms(3,4)] assms(5)
  by simp

theorem pure_and_deterministic_witness:
  "0 < free \<lparr>arr = (\<lambda>a. [])(0 := [dbl 0, dbl 10], 1 := [dbl 5, dbl 5]), free = 2\<rparr> \<and>
   1 < free \<lparr>arr = (\<lambda>a. [])(0 := [dbl 0, dbl 10], 1 := [dbl 5, dbl 5]), free = 2\<rparr> \<and>
   3 < free \<lparr>arr = (\<lambda>a. [])(3 := [dbl 0, dbl 10], 5 := [dbl 5, dbl 5]), free = 7\<rparr> \<and>
   5 < free \<lparr>arr = (\<lambda>a. [])(3 := [dbl 0, dbl 10], 5 := [dbl 5, dbl 5]), free = 7\<rparr> \<and>
   map (arr \<lparr>arr = (\<lambda>a. [])(0 := [dbl 0, dbl 10], 1 := [dbl 5, dbl 5]), free = 2\<rparr>) [0, 1] =
     map (arr \<lparr>arr = (\<lambda>a. [])(3 := [dbl 0, dbl 10], 5 := [dbl 5, dbl 5]), free = 7\<rparr>) [3, 5] \<and>
   (case normalize_store \<lparr>arr = (\<lambda>a. [])(0 := [dbl 0, dbl 10], 1 := [dbl 5, dbl 5]), free = 2\<rparr> [0, 1] of
      (out, st') \<Rightarrow>
        (case normalize_store \<lparr>arr = (\<lambda>a. [])(3 := [dbl 0, dbl 10], 5 := [dbl 5, dbl 5]), free = 7\<rparr> [3, 5] of
           (out2, st2') \<Rightarrow>
             map (arr st') out = map (arr st2') out2 \<and>
             map (arr st') out = [[dbl 0, dbl 10], [dbl 5, dbl 5]] \<and>
             arr st' 0 = [dbl 0, dbl 10] \<and> arr st' 1 = [dbl 5, dbl 5]))"
proof -
  let ?st = "\<lparr>arr = (\<lambda>a. [])(0 := [dbl 0, dbl 10], 1 := [dbl 5, dbl 5]), free = 2\<rparr>"
  let ?st2 = "\<lparr>arr = (\<lambda>a. [])(3 := [dbl 0, dbl 10], 5 := [dbl 5, dbl 5]), free = 7\<rparr>"
  obtain out st' where r1: "normalize_store ?st [0, 1] = (out, st')"
    by (cases "normalize_store ?st [0, 1]") auto
  obtain out2 st2' where r2: "normalize_store ?st2 [3, 5] = (out2, st2')"
    by (cases "normalize_store ?st2 [3, 5]") auto
  have h1: "\<forall>a\<in>set [0, 1]. a < free ?st" by simp
  have h2: "\<forall>a\<in>set [3, 5]. a < free ?st2" by simp
  have h3: "map (arr ?st) [0, 1] = map (arr ?st2) [3, 5]" by simp
  have e: "arrays (normalizePlaybackSeries [[dbl 0, dbl 10], [dbl 5, dbl 5]]) = [[dbl 0, dbl 10], [dbl 5, dbl 5]]"
    by (simp add: eval_rules)
  have c: "map (arr ?st) [0, 1] = [[dbl 0, dbl 10], [dbl 5, dbl 5]]" by simp
  note t = pure_and_deterministic [OF h1 r1 h2 r2 h3, unfolded c e]
  have t1: "map (arr st') out = map (arr st2') out2"
    and t2: "map (arr st') out = [[dbl 0, dbl 10], [dbl 5, dbl 5]]"
    and t3: "\<forall>a<free ?st. arr st' a = arr ?st a"
    and t4: "\<forall>c\<in>set out. free ?st \<le> c"
    using t by blast+
  have "arr st' 0 = arr ?st 0" "arr st' 1 = arr ?st 1" using t3 by simp_all
  then have a0: "arr st' 0 = [dbl 0, dbl 10]" and a1: "arr st' 1 = [dbl 5, dbl 5]" by simp_all
  have g: "0 < free ?st" "1 < free ?st" "3 < free ?st2" "5 < free ?st2" by simp_all
  show ?thesis unfolding r1 r2 prod.case by (intro conjI g h3 t1 t2 a0 a1)
qed

end
